theory Spec2Isabelle
  imports Complex_Main "HOL-Library.Monad_Syntax"
begin

section \<open>Numbers\<close>

text \<open>
  The synthesiser computes in Go's \<open>float64\<close> and \<open>int\<close>. Here \<open>float64\<close> is the type
  \<open>real\<close> (no rounding, no NaN, no infinities) and \<open>int\<close> is the type \<open>int\<close> (the
  counters of the program stay far below the 63 bits of a Go \<open>int\<close>). The conversion \<open>int(x)\<close> of a
  \<open>float64\<close> truncates toward zero.
\<close>

definition go_int :: "real \<Rightarrow> int" where
  "go_int x = (if 0 \<le> x then \<lfloor>x\<rfloor> else \<lceil>x\<rceil>)"

section \<open>Envelope (package synth)\<close>

datatype EnvelopeStage = Attack | Decay | Sustain | Release | Off

record Envelope =
  attackTime :: real
  decayTime :: real
  sustainLevel :: real
  releaseTime :: real
  stage :: EnvelopeStage
  level :: real
  env_sampleRate :: real
  sampleCount :: int

definition NewEnvelope :: "real \<Rightarrow> real \<Rightarrow> real \<Rightarrow> real \<Rightarrow> real \<Rightarrow> Envelope" where
  "NewEnvelope attack decay sustain release rate =
     \<lparr>attackTime = attack, decayTime = decay, sustainLevel = sustain, releaseTime = release,
      stage = Off, level = 0, env_sampleRate = rate, sampleCount = 0\<rparr>"

definition Envelope_Trigger :: "Envelope \<Rightarrow> Envelope" where
  "Envelope_Trigger e = e\<lparr>stage := Attack, sampleCount := 0\<rparr>"

definition Envelope_Release :: "Envelope \<Rightarrow> Envelope" where
  "Envelope_Release e = (if stage e \<noteq> Off then e\<lparr>stage := Release, sampleCount := 0\<rparr> else e)"

text \<open>The three sample counts that \<open>Next\<close> recomputes on every call.\<close>

definition attackSamples :: "Envelope \<Rightarrow> int" where
  "attackSamples e = go_int (attackTime e * env_sampleRate e)"

definition decaySamples :: "Envelope \<Rightarrow> int" where
  "decaySamples e = go_int (decayTime e * env_sampleRate e)"

definition releaseSamples :: "Envelope \<Rightarrow> int" where
  "releaseSamples e = go_int (releaseTime e * env_sampleRate e)"

text \<open>\<open>Envelope.Next\<close>: the returned value is the level of the updated envelope.\<close>

definition Envelope_Next :: "Envelope \<Rightarrow> real \<times> Envelope" where
  "Envelope_Next e =
     (let e' =
        (case stage e of
           Attack \<Rightarrow>
             (if attackSamples e = 0 then e\<lparr>level := 1, stage := Decay, sampleCount := 0\<rparr>
              else if sampleCount e \<ge> attackSamples e
                then e\<lparr>level := 1, stage := Decay, sampleCount := 0\<rparr>
              else e\<lparr>level := of_int (sampleCount e) / of_int (attackSamples e),
                     sampleCount := sampleCount e + 1\<rparr>)
         | Decay \<Rightarrow>
             (if decaySamples e = 0 then e\<lparr>level := sustainLevel e, stage := Sustain\<rparr>
              else if sampleCount e \<ge> decaySamples e
                then e\<lparr>level := sustainLevel e, stage := Sustain\<rparr>
              else (let t = of_int (sampleCount e) / of_int (decaySamples e)
                    in e\<lparr>level := 1 + t * (sustainLevel e - 1),
                          sampleCount := sampleCount e + 1\<rparr>))
         | Sustain \<Rightarrow> e\<lparr>level := sustainLevel e\<rparr>
         | Release \<Rightarrow>
             (let startLevel = sustainLevel e in
              if releaseSamples e = 0 then e\<lparr>level := 0, stage := Off\<rparr>
              else if sampleCount e \<ge> releaseSamples e then e\<lparr>level := 0, stage := Off\<rparr>
              else (let t = of_int (sampleCount e) / of_int (releaseSamples e)
                    in e\<lparr>level := startLevel * (1 - t),
                          sampleCount := sampleCount e + 1\<rparr>))
         | Off \<Rightarrow> e\<lparr>level := 0\<rparr>)
      in (level e', e'))"

definition Envelope_IsActive :: "Envelope \<Rightarrow> bool" where
  "Envelope_IsActive e \<longleftrightarrow> stage e \<noteq> Off"

text \<open>One per-sample advance, keeping only the envelope.\<close>

definition Envelope_advance :: "Envelope \<Rightarrow> Envelope" where
  "Envelope_advance e = snd (Envelope_Next e)"

text \<open>The parameters of an envelope, which no method changes.\<close>

definition same_params :: "Envelope \<Rightarrow> Envelope \<Rightarrow> bool" where
  "same_params e e' \<longleftrightarrow>
     attackTime e' = attackTime e \<and> decayTime e' = decayTime e \<and>
     sustainLevel e' = sustainLevel e \<and> releaseTime e' = releaseTime e \<and>
     env_sampleRate e' = env_sampleRate e"

text \<open>A small envelope for concrete runs: 4 samples per second, half a second of attack,
  decay and release (2 samples each), sustain level 1/4.\<close>

definition envelope_example :: Envelope where
  "envelope_example = NewEnvelope (1/2) (1/2) (1/4) (1/2) 4"

text \<open>The states reached by holding a note: trigger and run through the attack, run
  through the decay, then release and run through the release. Each stage is given one
  advance more than its sample count (a negative count is no ramp at all).\<close>

definition after_attack :: "Envelope \<Rightarrow> Envelope" where
  "after_attack e = (Envelope_advance ^^ (nat (attackSamples e) + 1)) (Envelope_Trigger e)"

definition after_decay :: "Envelope \<Rightarrow> Envelope" where
  "after_decay e = (Envelope_advance ^^ (nat (decaySamples e) + 1)) (after_attack e)"

definition after_release :: "Envelope \<Rightarrow> Envelope" where
  "after_release e =
     (Envelope_advance ^^ (nat (releaseSamples e) + 1)) (Envelope_Release (after_decay e))"

section \<open>Notes and oscillator (package synth)\<close>

text \<open>\<open>math.Pow(2.0, y)\<close> is \<open>2 powr y\<close>, \<open>math.Mod(x, 1.0)\<close> is \<open>x\<close> minus its
  truncation, \<open>math.Sin\<close> and \<open>math.Pi\<close> are \<open>sin\<close> and \<open>pi\<close>.\<close>

definition NoteToFrequency :: "int \<Rightarrow> real" where
  "NoteToFrequency note = 440 * 2 powr (of_int (note - 57) / 12)"

definition go_mod1 :: "real \<Rightarrow> real" where
  "go_mod1 x = x - of_int (go_int x)"

datatype WaveType = Square | Saw | Triangle | Sine | Noise

record Oscillator =
  waveType :: WaveType
  osc_frequency :: real
  osc_phase :: real
  osc_sampleRate :: real

definition NewOscillator :: "WaveType \<Rightarrow> real \<Rightarrow> Oscillator" where
  "NewOscillator wt rate =
     \<lparr>waveType = wt, osc_frequency = 0, osc_phase = 0, osc_sampleRate = rate\<rparr>"

definition Oscillator_SetFrequency :: "Oscillator \<Rightarrow> real \<Rightarrow> Oscillator" where
  "Oscillator_SetFrequency o' freq = o'\<lparr>osc_frequency := freq\<rparr>"

definition Oscillator_Next :: "Oscillator \<Rightarrow> real \<times> Oscillator" where
  "Oscillator_Next o' =
     (let ph = osc_phase o';
          sample =
            (case waveType o' of
               Square \<Rightarrow> (if ph < 1/2 then 1 else - 1)
             | Saw \<Rightarrow> 2 * ph - 1
             | Triangle \<Rightarrow> (if ph < 1/2 then 4 * ph - 1 else 3 - 4 * ph)
             | Sine \<Rightarrow> sin (2 * pi * ph)
             | Noise \<Rightarrow> 2 * go_mod1 (ph * (123456789 / 10000)) - 1);
          phaseIncrement = osc_frequency o' / osc_sampleRate o';
          ph1 = ph + phaseIncrement;
          ph2 = (if ph1 \<ge> 1 then ph1 - 1 else ph1)
      in (sample, o'\<lparr>osc_phase := ph2\<rparr>))"

section \<open>FM operator (package synth)\<close>

record FMOperator =
  op_phase :: real
  op_frequency :: real
  op_sampleRate :: real
  op_envelope :: Envelope
  outputLevel :: real
  ratio :: real

definition NewFMOperator :: "real \<Rightarrow> FMOperator" where
  "NewFMOperator rate =
     \<lparr>op_phase = 0, op_frequency = 0, op_sampleRate = rate,
      op_envelope = NewEnvelope (1/100) (1/10) (6/10) (2/10) rate,
      outputLevel = 1, ratio = 1\<rparr>"

definition FMOperator_SetEnvelope :: "FMOperator \<Rightarrow> real \<Rightarrow> real \<Rightarrow> real \<Rightarrow> real \<Rightarrow> FMOperator" where
  "FMOperator_SetEnvelope op attack decay sustain release =
     op\<lparr>op_envelope := NewEnvelope attack decay sustain release (op_sampleRate op)\<rparr>"

definition FMOperator_SetRatio :: "FMOperator \<Rightarrow> real \<Rightarrow> FMOperator" where
  "FMOperator_SetRatio op r = op\<lparr>ratio := r\<rparr>"

definition FMOperator_SetOutputLevel :: "FMOperator \<Rightarrow> real \<Rightarrow> FMOperator" where
  "FMOperator_SetOutputLevel op l = op\<lparr>outputLevel := l\<rparr>"

definition FMOperator_SetFrequency :: "FMOperator \<Rightarrow> real \<Rightarrow> FMOperator" where
  "FMOperator_SetFrequency op freq = op\<lparr>op_frequency := freq * ratio op\<rparr>"

definition FMOperator_Trigger :: "FMOperator \<Rightarrow> FMOperator" where
  "FMOperator_Trigger op = op\<lparr>op_envelope := Envelope_Trigger (op_envelope op), op_phase := 0\<rparr>"

definition FMOperator_Release :: "FMOperator \<Rightarrow> FMOperator" where
  "FMOperator_Release op = op\<lparr>op_envelope := Envelope_Release (op_envelope op)\<rparr>"

definition FMOperator_Next :: "FMOperator \<Rightarrow> real \<Rightarrow> real \<times> FMOperator" where
  "FMOperator_Next op modulation =
     (let (env, e') = Envelope_Next (op_envelope op);
          sample = sin (2 * pi * op_phase op + modulation);
          phaseIncrement = op_frequency op / op_sampleRate op;
          ph1 = op_phase op + phaseIncrement;
          ph2 = (if ph1 \<ge> 1 then ph1 - of_int \<lfloor>ph1\<rfloor> else ph1)
      in (sample * env * outputLevel op, op\<lparr>op_envelope := e', op_phase := ph2\<rparr>))"

definition FMOperator_IsActive :: "FMOperator \<Rightarrow> bool" where
  "FMOperator_IsActive op = Envelope_IsActive (op_envelope op)"

section \<open>FM instrument (package synth)\<close>

datatype FMAlgorithm = FM2OpSimple | FM2OpParallel | FM3OpStack | FM4OpPiano

record FMInstrument =
  operators :: "FMOperator list"
  algorithm :: FMAlgorithm
  modulationIndex :: real
  fm_sampleRate :: real
  baseFrequency :: real
  fm_volume :: real

text \<open>The operator count and the operator indices are \<open>nat\<close>: every caller passes a
  literal between 0 and 4.\<close>

definition NewFMInstrument :: "nat \<Rightarrow> FMAlgorithm \<Rightarrow> real \<Rightarrow> FMInstrument" where
  "NewFMInstrument numOperators alg rate =
     \<lparr>operators = replicate numOperators (NewFMOperator rate), algorithm = alg,
      modulationIndex = 2, fm_sampleRate = rate, baseFrequency = 0, fm_volume = 1\<rparr>"

definition SetOperatorRatio :: "FMInstrument \<Rightarrow> nat \<Rightarrow> real \<Rightarrow> FMInstrument" where
  "SetOperatorRatio fm opIndex r =
     (if opIndex < length (operators fm)
      then fm\<lparr>operators := (operators fm)[opIndex := FMOperator_SetRatio (operators fm ! opIndex) r]\<rparr>
      else fm)"

definition SetOperatorEnvelope :: "FMInstrument \<Rightarrow> nat \<Rightarrow> real \<Rightarrow> real \<Rightarrow> real \<Rightarrow> real \<Rightarrow> FMInstrument" where
  "SetOperatorEnvelope fm opIndex attack decay sustain release =
     (if opIndex < length (operators fm)
      then fm\<lparr>operators := (operators fm)
             [opIndex := FMOperator_SetEnvelope (operators fm ! opIndex) attack decay sustain release]\<rparr>
      else fm)"

definition SetOperatorLevel :: "FMInstrument \<Rightarrow> nat \<Rightarrow> real \<Rightarrow> FMInstrument" where
  "SetOperatorLevel fm opIndex l =
     (if opIndex < length (operators fm)
      then fm\<lparr>operators := (operators fm)
             [opIndex := FMOperator_SetOutputLevel (operators fm ! opIndex) l]\<rparr>
      else fm)"

definition SetModulationIndex :: "FMInstrument \<Rightarrow> real \<Rightarrow> FMInstrument" where
  "SetModulationIndex fm i = fm\<lparr>modulationIndex := i\<rparr>"

definition FMInstrument_NoteOn :: "FMInstrument \<Rightarrow> int \<Rightarrow> real \<Rightarrow> FMInstrument" where
  "FMInstrument_NoteOn fm note velocity =
     (let base = NoteToFrequency note
      in fm\<lparr>baseFrequency := base, fm_volume := velocity,
            operators := map (\<lambda>op. FMOperator_Trigger (FMOperator_SetFrequency op base))
                           (operators fm)\<rparr>)"

definition FMInstrument_NoteOff :: "FMInstrument \<Rightarrow> FMInstrument" where
  "FMInstrument_NoteOff fm = fm\<lparr>operators := map FMOperator_Release (operators fm)\<rparr>"

definition FMInstrument_Next :: "FMInstrument \<Rightarrow> real \<times> FMInstrument" where
  "FMInstrument_Next fm =
     (let ops = operators fm; mi = modulationIndex fm in
      if length ops = 0 then (0, fm)
      else
        (case algorithm fm of
           FM2OpSimple \<Rightarrow>
             (if length ops \<ge> 2 then
                (let (m, op1) = FMOperator_Next (ops ! 1) 0;
                     modulator = m * mi;
                     (carrier, op0) = FMOperator_Next (ops ! 0) modulator
                 in (carrier * fm_volume fm, fm\<lparr>operators := ops[1 := op1, 0 := op0]\<rparr>))
              else (0 * fm_volume fm, fm))
         | FM2OpParallel \<Rightarrow>
             (if length ops \<ge> 2 then
                (let (a, op0) = FMOperator_Next (ops ! 0) 0;
                     (b, op1) = FMOperator_Next (ops ! 1) 0
                 in ((a + b) * (1/2) * fm_volume fm, fm\<lparr>operators := ops[0 := op0, 1 := op1]\<rparr>))
              else (0 * fm_volume fm, fm))
         | FM3OpStack \<Rightarrow>
             (if length ops \<ge> 3 then
                (let (m2, op2) = FMOperator_Next (ops ! 2) 0;
                     mod2 = m2 * mi;
                     (m1, op1) = FMOperator_Next (ops ! 1) mod2;
                     mod1 = m1 * mi;
                     (carrier, op0) = FMOperator_Next (ops ! 0) mod1
                 in (carrier * fm_volume fm, fm\<lparr>operators := ops[2 := op2, 1 := op1, 0 := op0]\<rparr>))
              else (0 * fm_volume fm, fm))
         | FM4OpPiano \<Rightarrow>
             (if length ops \<ge> 4 then
                (let (m4, op3) = FMOperator_Next (ops ! 3) 0;
                     mod4 = m4 * mi * (1/2);
                     (m3, op2) = FMOperator_Next (ops ! 2) mod4;
                     mod3 = m3 * mi;
                     (m2, op1) = FMOperator_Next (ops ! 1) 0;
                     mod2 = m2 * mi * (3/10);
                     (carrier, op0) = FMOperator_Next (ops ! 0) (mod3 + mod2)
                 in (carrier * fm_volume fm,
                     fm\<lparr>operators := ops[3 := op3, 2 := op2, 1 := op1, 0 := op0]\<rparr>))
              else (0 * fm_volume fm, fm))))"

definition FMInstrument_IsActive :: "FMInstrument \<Rightarrow> bool" where
  "FMInstrument_IsActive fm = list_ex FMOperator_IsActive (operators fm)"

text \<open>The presets: one call sets ratio, envelope and level of an operator.\<close>

definition preset_op :: "FMInstrument \<Rightarrow> nat \<Rightarrow> real \<Rightarrow> real \<times> real \<times> real \<times> real \<Rightarrow> real \<Rightarrow> FMInstrument" where
  "preset_op fm i r adsr l =
     (case adsr of (a, d, s, rl) \<Rightarrow>
        SetOperatorLevel (SetOperatorEnvelope (SetOperatorRatio fm i r) i a d s rl) i l)"

definition NewPianoFMInstrument :: "real \<Rightarrow> FMInstrument" where
  "NewPianoFMInstrument rate =
     (let fm = NewFMInstrument 4 FM4OpPiano rate;
          fm = preset_op fm 0 1 (1/1000, 3/10, 0, 2/10) 1;
          fm = preset_op fm 1 2 (1/1000, 15/100, 0, 1/10) (7/10);
          fm = preset_op fm 2 (35/10) (1/1000, 2/10, 0, 15/100) (5/10);
          fm = preset_op fm 3 5 (5/10000, 5/100, 0, 5/100) (4/10)
      in SetModulationIndex fm (15/10))"

definition NewElectricPianoFMInstrument :: "real \<Rightarrow> FMInstrument" where
  "NewElectricPianoFMInstrument rate =
     (let fm = NewFMInstrument 2 FM2OpSimple rate;
          fm = preset_op fm 0 1 (2/1000, 4/10, 3/10, 3/10) 1;
          fm = preset_op fm 1 14 (1/1000, 2/10, 0, 2/10) (8/10)
      in SetModulationIndex fm 3)"

definition NewFMBassFMInstrument :: "real \<Rightarrow> FMInstrument" where
  "NewFMBassFMInstrument rate =
     (let fm = NewFMInstrument 3 FM3OpStack rate;
          fm = preset_op fm 0 1 (1/1000, 2/10, 7/10, 15/100) 1;
          fm = preset_op fm 1 (201/100) (1/1000, 15/100, 5/10, 1/10) (9/10);
          fm = preset_op fm 2 4 (5/10000, 8/100, 2/10, 5/100) (7/10)
      in SetModulationIndex fm (35/10))"

definition NewFMLeadFMInstrument :: "real \<Rightarrow> FMInstrument" where
  "NewFMLeadFMInstrument rate =
     (let fm = NewFMInstrument 2 FM2OpSimple rate;
          fm = preset_op fm 0 1 (5/1000, 1/10, 8/10, 15/100) 1;
          fm = preset_op fm 1 3 (2/1000, 8/100, 6/10, 1/10) 1
      in SetModulationIndex fm 5)"

definition NewFMBrassFMInstrument :: "real \<Rightarrow> FMInstrument" where
  "NewFMBrassFMInstrument rate =
     (let fm = NewFMInstrument 3 FM3OpStack rate;
          fm = preset_op fm 0 1 (2/100, 15/100, 7/10, 2/10) 1;
          fm = preset_op fm 1 (15/10) (15/1000, 12/100, 6/10, 15/100) (8/10);
          fm = preset_op fm 2 3 (1/100, 1/10, 5/10, 12/100) (6/10)
      in SetModulationIndex fm 2)"

definition NewFMBellFMInstrument :: "real \<Rightarrow> FMInstrument" where
  "NewFMBellFMInstrument rate =
     (let fm = NewFMInstrument 2 FM2OpSimple rate;
          fm = preset_op fm 0 1 (1/1000, 5/10, 2/10, 4/10) 1;
          fm = preset_op fm 1 11 (1/1000, 3/10, 0, 3/10) (9/10)
      in SetModulationIndex fm 4)"

definition NewFMArpFMInstrument :: "real \<Rightarrow> FMInstrument" where
  "NewFMArpFMInstrument rate =
     (let fm = NewFMInstrument 2 FM2OpSimple rate;
          fm = preset_op fm 0 1 (1/1000, 5/100, 3/10, 5/100) 1;
          fm = preset_op fm 1 2 (1/1000, 3/100, 1/10, 3/100) (85/100)
      in SetModulationIndex fm (25/10))"

section \<open>Voice (package synth)\<close>

text \<open>
  A voice holds pointers to an oscillator and an envelope (set by \<open>NewVoice\<close>, nil in a
  voice made by \<open>NewFMVoice\<close>) and to an FM instrument (nil in a voice made by
  \<open>NewVoice\<close>). A method that dereferences a nil pointer panics: its result is \<open>None\<close>.
\<close>

record Voice =
  oscillator :: "Oscillator option"
  envelope :: "Envelope option"
  fmInstrument :: "FMInstrument option"
  useFM :: bool
  v_volume :: real
  active :: bool
  v_sampleRate :: real

definition NewVoice :: "WaveType \<Rightarrow> real \<Rightarrow> Voice" where
  "NewVoice wt rate =
     \<lparr>oscillator = Some (NewOscillator wt rate),
      envelope = Some (NewEnvelope (1/100) (1/10) (6/10) (2/10) rate),
      fmInstrument = None, useFM = False, v_volume = 1, active = False, v_sampleRate = rate\<rparr>"

definition NewFMVoice :: "FMInstrument \<Rightarrow> Voice" where
  "NewFMVoice fm =
     \<lparr>oscillator = None, envelope = None, fmInstrument = Some fm, useFM = True,
      v_volume = 1, active = False, v_sampleRate = fm_sampleRate fm\<rparr>"

definition Voice_SetInstrument :: "Voice \<Rightarrow> WaveType \<Rightarrow> real \<Rightarrow> real \<Rightarrow> real \<Rightarrow> real \<Rightarrow> Voice option" where
  "Voice_SetInstrument v wt attack decay sustain release =
     (if useFM v then Some v
      else do {
        o' \<leftarrow> oscillator v;
        e \<leftarrow> envelope v;
        Some (v\<lparr>oscillator := Some (o'\<lparr>waveType := wt\<rparr>),
                envelope := Some (e\<lparr>attackTime := attack, decayTime := decay,
                                     sustainLevel := sustain, releaseTime := release\<rparr>)\<rparr>)
      })"

text \<open>The test \<open>v.useFM && v.fmInstrument != nil\<close> that selects the FM path.\<close>

definition fm_path :: "Voice \<Rightarrow> bool" where
  "fm_path v \<longleftrightarrow> useFM v \<and> fmInstrument v \<noteq> None"

definition Voice_NoteOn :: "Voice \<Rightarrow> int \<Rightarrow> real \<Rightarrow> Voice option" where
  "Voice_NoteOn v note volume =
     (let v1 = v\<lparr>v_volume := volume, active := True\<rparr> in
      if fm_path v then
        do { fm \<leftarrow> fmInstrument v;
             Some (v1\<lparr>fmInstrument := Some (FMInstrument_NoteOn fm note volume)\<rparr>) }
      else
        do { o' \<leftarrow> oscillator v;
             e \<leftarrow> envelope v;
             Some (v1\<lparr>oscillator := Some (Oscillator_SetFrequency o' (NoteToFrequency note)),
                      envelope := Some (Envelope_Trigger e)\<rparr>) })"

definition Voice_NoteOff :: "Voice \<Rightarrow> Voice option" where
  "Voice_NoteOff v =
     (if fm_path v then
        do { fm \<leftarrow> fmInstrument v; Some (v\<lparr>fmInstrument := Some (FMInstrument_NoteOff fm)\<rparr>) }
      else
        do { e \<leftarrow> envelope v; Some (v\<lparr>envelope := Some (Envelope_Release e)\<rparr>) })"

definition Voice_IsActive :: "Voice \<Rightarrow> bool option" where
  "Voice_IsActive v =
     (if fm_path v then
        do { fm \<leftarrow> fmInstrument v; Some (active v \<or> FMInstrument_IsActive fm) }
      else if active v then Some True
      else do { e \<leftarrow> envelope v; Some (Envelope_IsActive e) })"

definition Voice_Next :: "Voice \<Rightarrow> (real \<times> Voice) option" where
  "Voice_Next v =
     (if fm_path v then
        do { fm \<leftarrow> fmInstrument v;
             if \<not> active v \<and> \<not> FMInstrument_IsActive fm then Some (0, v)
             else (let (sample, fm') = FMInstrument_Next fm;
                       v1 = v\<lparr>fmInstrument := Some fm'\<rparr>;
                       v2 = (if \<not> FMInstrument_IsActive fm' then v1\<lparr>active := False\<rparr> else v1)
                   in Some (sample, v2)) }
      else
        do { idle \<leftarrow> (if active v then Some False
                       else do { e \<leftarrow> envelope v; Some (\<not> Envelope_IsActive e) });
             if idle then Some (0, v)
             else do {
               o' \<leftarrow> oscillator v;
               e \<leftarrow> envelope v;
               (let (osc, o1) = Oscillator_Next o';
                    (env, e1) = Envelope_Next e;
                    v1 = v\<lparr>oscillator := Some o1, envelope := Some e1\<rparr>;
                    v2 = (if \<not> Envelope_IsActive e1 then v1\<lparr>active := False\<rparr> else v1)
                in Some (osc * env * v_volume v, v2)) } })"

section \<open>Module data (package tracker)\<close>

text \<open>
  Modelled from the spec: the field \<open>Chord\<close> of \<open>TrackerNote\<close>. \<open>Player.processRow\<close>
  reads \<open>note.Chord\<close>, and the declaration of \<open>TrackerNote\<close> at hand has no such field;
  the specification gives a note event "optional simultaneous extra pitches (chord)".
  A nil chord is the empty list.
\<close>

record TrackerNote =
  Note :: int
  tn_Instrument :: int
  Volume :: real
  Effect :: string
  Chord :: "int list"

record Pattern =
  Rows :: int
  Channels :: "TrackerNote list list"

record Instrument =
  inst_Name :: string
  inst_WaveType :: WaveType
  inst_Attack :: real
  inst_Decay :: real
  inst_Sustain :: real
  inst_Release :: real
  IsFM :: bool
  FMPreset :: string
  inst_FMAlgorithm :: FMAlgorithm
  FMParams :: "(string \<times> string) list"

record TrackerModule =
  Title :: string
  Tempo :: int
  TicksPerRow :: int
  Patterns :: "Pattern list"
  Sequence :: "int list"
  Instruments :: "Instrument list"

text \<open>Indexing a slice with an \<open>int\<close>: out of range is a panic.\<close>

definition go_index :: "'a list \<Rightarrow> int \<Rightarrow> 'a option" where
  "go_index xs i = (if 0 \<le> i \<and> i < int (length xs) then Some (xs ! nat i) else None)"

section \<open>Voice allocator (package audio)\<close>

text \<open>
  The note map holds pointers to the voices of the pool. Every voice of the pool is
  allocated once, by \<open>NewVoiceAllocator\<close>, so a pointer is the index of its voice.
\<close>

record VoiceAllocator =
  voices :: "Voice list"
  noteMap :: "int \<rightharpoonup> nat"
  va_instrument :: Instrument
  va_sampleRate :: real
  maxVoices :: int
  activeNotes :: "int list"

definition fm_preset :: "string \<Rightarrow> real \<Rightarrow> FMInstrument" where
  "fm_preset name rate =
     (if name = ''PIANO'' then NewPianoFMInstrument rate
      else if name = ''EPIANO'' then NewElectricPianoFMInstrument rate
      else if name = ''BASS'' then NewFMBassFMInstrument rate
      else if name = ''LEAD'' then NewFMLeadFMInstrument rate
      else if name = ''BRASS'' then NewFMBrassFMInstrument rate
      else if name = ''BELL'' then NewFMBellFMInstrument rate
      else if name = ''ARP'' then NewFMArpFMInstrument rate
      else NewFMLeadFMInstrument rate)"

text \<open>The body of the loop of \<open>NewVoiceAllocator\<close>: one voice of the pool.\<close>

definition pool_voice :: "Instrument \<Rightarrow> real \<Rightarrow> Voice option" where
  "pool_voice inst rate =
     (if IsFM inst then Some (NewFMVoice (fm_preset (FMPreset inst) rate))
      else Voice_SetInstrument (NewVoice (inst_WaveType inst) rate) (inst_WaveType inst)
             (inst_Attack inst) (inst_Decay inst) (inst_Sustain inst) (inst_Release inst))"

text \<open>The pool size is a \<open>nat\<close>: \<open>make\<close> panics on a negative length, and \<open>NewPlayer\<close>
  passes 4.\<close>

definition NewVoiceAllocator :: "Instrument \<Rightarrow> real \<Rightarrow> nat \<Rightarrow> VoiceAllocator option" where
  "NewVoiceAllocator inst rate n =
     do { v \<leftarrow> pool_voice inst rate;
          Some \<lparr>voices = replicate n v, noteMap = Map.empty, va_instrument = inst,
                va_sampleRate = rate, maxVoices = int n, activeNotes = []\<rparr> }"

text \<open>The first loop of \<open>NoteOn\<close>: the index of the first voice that is not active, if
  there is one.\<close>

fun first_inactive :: "Voice list \<Rightarrow> nat \<Rightarrow> nat option option" where
  "first_inactive [] i = Some None"
| "first_inactive (v # vs) i =
     do { a \<leftarrow> Voice_IsActive v;
          if \<not> a then Some (Some i) else first_inactive vs (Suc i) }"

text \<open>Triggering the voice at an index of the pool. An index beyond the pool is no
  pointer that the program can hold; it has no result.\<close>

definition trigger_voice :: "VoiceAllocator \<Rightarrow> nat \<Rightarrow> int \<Rightarrow> real \<Rightarrow> VoiceAllocator option" where
  "trigger_voice va i note velocity =
     (if i < length (voices va)
      then do { v \<leftarrow> Voice_NoteOn (voices va ! i) note velocity;
                Some (va\<lparr>voices := (voices va)[i := v]\<rparr>) }
      else None)"

definition VoiceAllocator_NoteOn :: "VoiceAllocator \<Rightarrow> int \<Rightarrow> real \<Rightarrow> VoiceAllocator option" where
  "VoiceAllocator_NoteOn va note velocity =
     (case noteMap va note of
        Some i \<Rightarrow> trigger_voice va i note velocity
      | None \<Rightarrow>
          do { sel \<leftarrow> first_inactive (voices va) 0;
               (selectedVoice, va1) \<leftarrow>
                 (case sel of
                    Some i \<Rightarrow> Some (i, va)
                  | None \<Rightarrow>
                      (case activeNotes va of
                         oldestNote # rest \<Rightarrow>
                           do { i \<leftarrow> noteMap va oldestNote;
                                Some (i, va\<lparr>noteMap := (noteMap va)(oldestNote := None),
                                            activeNotes := rest\<rparr>) }
                       | [] \<Rightarrow> (if voices va = [] then None else Some (0, va))));
               va2 \<leftarrow> trigger_voice va1 selectedVoice note velocity;
               Some (va2\<lparr>noteMap := (noteMap va2)(note \<mapsto> selectedVoice),
                        activeNotes := activeNotes va2 @ [note]\<rparr>) })"

definition VoiceAllocator_NoteOff :: "VoiceAllocator \<Rightarrow> int \<Rightarrow> VoiceAllocator option" where
  "VoiceAllocator_NoteOff va note =
     (case noteMap va note of
        None \<Rightarrow> Some va
      | Some i \<Rightarrow>
          (if i < length (voices va)
           then do { v \<leftarrow> Voice_NoteOff (voices va ! i);
                     Some (va\<lparr>voices := (voices va)[i := v],
                             noteMap := (noteMap va)(note := None),
                             activeNotes := remove1 note (activeNotes va)\<rparr>) }
           else None))"

fun release_all :: "Voice list \<Rightarrow> Voice list option" where
  "release_all [] = Some []"
| "release_all (v # vs) =
     do { v' \<leftarrow> Voice_NoteOff v; vs' \<leftarrow> release_all vs; Some (v' # vs') }"

definition VoiceAllocator_AllNotesOff :: "VoiceAllocator \<Rightarrow> VoiceAllocator option" where
  "VoiceAllocator_AllNotesOff va =
     do { vs \<leftarrow> release_all (voices va);
          Some (va\<lparr>voices := vs, noteMap := Map.empty, activeNotes := []\<rparr>) }"

text \<open>The loop of \<open>Next\<close>, with its two accumulators \<open>sample\<close> and \<open>activeCount\<close>.\<close>

fun mix_voices :: "Voice list \<Rightarrow> real \<Rightarrow> int \<Rightarrow> (real \<times> int \<times> Voice list) option" where
  "mix_voices [] sample activeCount = Some (sample, activeCount, [])"
| "mix_voices (v # vs) sample activeCount =
     do { a \<leftarrow> Voice_IsActive v;
          if a then
            do { (s, v') \<leftarrow> Voice_Next v;
                 (t, c, vs') \<leftarrow> mix_voices vs (sample + s) (activeCount + 1);
                 Some (t, c, v' # vs') }
          else
            do { (t, c, vs') \<leftarrow> mix_voices vs sample activeCount;
                 Some (t, c, v # vs') } }"

definition VoiceAllocator_Next :: "VoiceAllocator \<Rightarrow> (real \<times> VoiceAllocator) option" where
  "VoiceAllocator_Next va =
     do { (sample, activeCount, vs) \<leftarrow> mix_voices (voices va) 0 0;
          Some (if activeCount > 0 then sample / of_int activeCount else sample,
                va\<lparr>voices := vs\<rparr>) }"

definition GetActiveNotes :: "VoiceAllocator \<Rightarrow> int list" where
  "GetActiveNotes va = activeNotes va"

definition GetActiveVoiceCount :: "VoiceAllocator \<Rightarrow> int" where
  "GetActiveVoiceCount va = int (length (activeNotes va))"

text \<open>A sequence of calls on one allocator, stopping at a panic.\<close>

datatype Call = NoteOn int real | NoteOff int | AllNotesOff

fun apply_call :: "VoiceAllocator \<Rightarrow> Call \<Rightarrow> VoiceAllocator option" where
  "apply_call va (NoteOn note velocity) = VoiceAllocator_NoteOn va note velocity"
| "apply_call va (NoteOff note) = VoiceAllocator_NoteOff va note"
| "apply_call va AllNotesOff = VoiceAllocator_AllNotesOff va"

fun run_calls :: "VoiceAllocator \<Rightarrow> Call list \<Rightarrow> VoiceAllocator option" where
  "run_calls va [] = Some va"
| "run_calls va (c # cs) = do { va' \<leftarrow> apply_call va c; run_calls va' cs }"

text \<open>A number of per-sample advances of one voice, stopping at a panic.\<close>

fun Voice_run :: "nat \<Rightarrow> Voice \<Rightarrow> Voice option" where
  "Voice_run 0 v = Some v"
| "Voice_run (Suc n) v = do { (s, v') \<leftarrow> Voice_Next v; Voice_run n v' }"

section \<open>Player (package audio)\<close>

record Player =
  p_module :: TrackerModule
  VoiceAllocators :: "VoiceAllocator list"
  p_sampleRate :: real
  currentPos :: int
  currentRow :: int
  sampleCounter :: int
  samplesPerRow :: int
  p_done :: bool
  maxPolyphony :: int

definition defaultInst :: Instrument where
  "defaultInst =
     \<lparr>inst_Name = ''Default'', inst_WaveType = Square, inst_Attack = 1/100, inst_Decay = 1/10,
      inst_Sustain = 6/10, inst_Release = 2/10, IsFM = False, FMPreset = [],
      inst_FMAlgorithm = FM2OpSimple, FMParams = []\<rparr>"

text \<open>The instrument of channel \<open>i\<close>.\<close>

definition channel_instrument :: "TrackerModule \<Rightarrow> nat \<Rightarrow> Instrument" where
  "channel_instrument m i =
     (if i < length (Instruments m) then Instruments m ! i else defaultInst)"

text \<open>
  \<open>NewPlayer\<close>. With tempo 0 the program converts an infinity (or a NaN) to \<open>int\<close>, a
  value that Go leaves to the implementation: the model has no player there.
\<close>

definition NewPlayer :: "TrackerModule \<Rightarrow> real \<Rightarrow> Player option" where
  "NewPlayer m sampleRate =
     (if Tempo m = 0 then None
      else
        (let samplesPerSecond = sampleRate;
             secondsPerBeat = 60 / of_int (Tempo m);
             secondsPerRow = secondsPerBeat / 4;
             spr = go_int (secondsPerRow * samplesPerSecond);
             numChannels = 8;
             mp = 4
         in do { vas \<leftarrow> those (map (\<lambda>i. NewVoiceAllocator (channel_instrument m i) sampleRate mp)
                                  [0..<numChannels]);
                 Some \<lparr>p_module = m, VoiceAllocators = vas, p_sampleRate = sampleRate,
                       currentPos = 0, currentRow = 0, sampleCounter = 0, samplesPerRow = spr,
                       p_done = False, maxPolyphony = int mp\<rparr> }))"

text \<open>The chord loop of \<open>processRow\<close>.\<close>

fun chord_on :: "VoiceAllocator \<Rightarrow> int list \<Rightarrow> real \<Rightarrow> VoiceAllocator option" where
  "chord_on va [] velocity = Some va"
| "chord_on va (chordNote # cs) velocity =
     (if chordNote \<ge> 0
      then do { va' \<leftarrow> VoiceAllocator_NoteOn va chordNote velocity; chord_on va' cs velocity }
      else chord_on va cs velocity)"

text \<open>What \<open>processRow\<close> does with the event of one channel.\<close>

definition process_event :: "VoiceAllocator \<Rightarrow> TrackerNote \<Rightarrow> VoiceAllocator option" where
  "process_event va note =
     (if Note note \<ge> 0 then
        (let velocity = (if Volume note = 0 then 1 else Volume note)
         in do { va1 \<leftarrow> VoiceAllocator_NoteOn va (Note note) velocity;
                 chord_on va1 (Chord note) velocity })
      else if Note note = - 2 then VoiceAllocator_AllNotesOff va
      else Some va)"

definition process_channel :: "TrackerNote list \<Rightarrow> VoiceAllocator \<Rightarrow> int \<Rightarrow> VoiceAllocator option" where
  "process_channel channel va row =
     (if row < int (length channel)
      then do { note \<leftarrow> go_index channel row; process_event va note }
      else Some va)"

text \<open>The channel loop of \<open>processRow\<close>: channel \<open>ch\<close> with allocator \<open>ch\<close>, as long as
  both exist.\<close>

fun process_channels :: "TrackerNote list list \<Rightarrow> VoiceAllocator list \<Rightarrow> int \<Rightarrow> VoiceAllocator list option" where
  "process_channels (c # cs) (va # vas) row =
     do { va' \<leftarrow> process_channel c va row;
          vas' \<leftarrow> process_channels cs vas row;
          Some (va' # vas') }"
| "process_channels cs vas row = Some vas"

definition Player_processRow :: "Player \<Rightarrow> Player option" where
  "Player_processRow p =
     (let m = p_module p in
      if currentPos p \<ge> int (length (Sequence m)) then Some p
      else do {
        patternIdx \<leftarrow> go_index (Sequence m) (currentPos p);
        if patternIdx \<ge> int (length (Patterns m)) then Some p
        else do {
          pattern \<leftarrow> go_index (Patterns m) patternIdx;
          vas \<leftarrow> process_channels (Channels pattern) (VoiceAllocators p) (currentRow p);
          Some (p\<lparr>VoiceAllocators := vas\<rparr>) } })"

text \<open>The mixing loop of \<open>Player.Next\<close>.\<close>

fun mix_channels :: "VoiceAllocator list \<Rightarrow> real \<Rightarrow> (real \<times> VoiceAllocator list) option" where
  "mix_channels [] sample = Some (sample, [])"
| "mix_channels (va # vas) sample =
     do { (s, va') \<leftarrow> VoiceAllocator_Next va;
          (t, vas') \<leftarrow> mix_channels vas (sample + s);
          Some (t, va' # vas') }"

text \<open>The end of \<open>Player.Next\<close>: the sample counter, the row and the sequence position.\<close>

definition advance_cursor :: "Player \<Rightarrow> Player option" where
  "advance_cursor p =
     (let m = p_module p;
          p1 = p\<lparr>sampleCounter := sampleCounter p + 1\<rparr> in
      if sampleCounter p1 \<ge> samplesPerRow p1 then
        (let p2 = p1\<lparr>sampleCounter := 0, currentRow := currentRow p1 + 1\<rparr> in
         if currentPos p2 < int (length (Sequence m)) then
           do { patternIdx \<leftarrow> go_index (Sequence m) (currentPos p2);
                if patternIdx < int (length (Patterns m)) then
                  do { pattern \<leftarrow> go_index (Patterns m) patternIdx;
                       if currentRow p2 \<ge> Rows pattern then
                         (let p3 = p2\<lparr>currentRow := 0, currentPos := currentPos p2 + 1\<rparr>
                          in Some (if currentPos p3 \<ge> int (length (Sequence m))
                                   then p3\<lparr>p_done := True\<rparr> else p3))
                       else Some p2 }
                else Some p2 }
         else Some p2)
      else Some p1)"

definition Player_Next :: "Player \<Rightarrow> (real \<times> Player) option" where
  "Player_Next p =
     (if p_done p then Some (0, p)
      else do {
        p1 \<leftarrow> (if sampleCounter p = 0 then Player_processRow p else Some p);
        (sample, vas) \<leftarrow> mix_channels (VoiceAllocators p1) 0;
        p2 \<leftarrow> advance_cursor (p1\<lparr>VoiceAllocators := vas\<rparr>);
        Some (sample / of_int (int (length (VoiceAllocators p1))), p2) })"

definition IsDone :: "Player \<Rightarrow> bool" where
  "IsDone p = p_done p"

text \<open>A number of calls of \<open>Next\<close>: the samples and the player they leave.\<close>

fun render :: "nat \<Rightarrow> Player \<Rightarrow> (real list \<times> Player) option" where
  "render 0 p = Some ([], p)"
| "render (Suc n) p =
     do { (s, p') \<leftarrow> Player_Next p;
          (ss, p'') \<leftarrow> render n p';
          Some (s # ss, p'') }"

section \<open>Predicates used in the proofs\<close>

text \<open>An envelope that has been triggered and not released.\<close>

definition env_held :: "Envelope \<Rightarrow> bool" where
  "env_held e \<longleftrightarrow> stage e = Attack \<or> stage e = Decay \<or> stage e = Sustain"

definition op_held :: "FMOperator \<Rightarrow> bool" where
  "op_held op \<longleftrightarrow> env_held (op_envelope op)"

text \<open>A voice whose trigger flag is set and whose engine has been triggered and not
  released.\<close>

definition voice_held :: "Voice \<Rightarrow> bool" where
  "voice_held v \<longleftrightarrow>
     active v \<and>
     (if fm_path v
      then (case fmInstrument v of None \<Rightarrow> False
            | Some fm \<Rightarrow> operators fm \<noteq> [] \<and> list_all op_held (operators fm))
      else oscillator v \<noteq> None \<and> (case envelope v of None \<Rightarrow> False | Some e \<Rightarrow> env_held e))"

text \<open>The FM instrument of a voice, if it is in use, has at least one operator (every
  algorithm needs two or more, and every preset has them).\<close>

definition fm_has_operators :: "Voice \<Rightarrow> bool" where
  "fm_has_operators v \<longleftrightarrow>
     (case fmInstrument v of None \<Rightarrow> True | Some fm \<Rightarrow> useFM v \<longrightarrow> operators fm \<noteq> [])"

text \<open>A voice as \<open>NewVoice\<close> or \<open>NewFMVoice\<close> builds it: the pointers of the path it
  takes are not nil.\<close>

definition voice_ok :: "Voice \<Rightarrow> bool" where
  "voice_ok v \<longleftrightarrow> fm_path v \<or> (oscillator v \<noteq> None \<and> envelope v \<noteq> None)"

text \<open>A piano voice and the voice that \<open>NoteOn\<close> makes of it.\<close>

definition piano_voice :: Voice where
  "piano_voice = NewFMVoice (NewPianoFMInstrument 44100)"

definition piano_voice_on :: Voice where
  "piano_voice_on =
     piano_voice\<lparr>v_volume := 1, active := True,
                  fmInstrument := Some (FMInstrument_NoteOn (NewPianoFMInstrument 44100) 60 1)\<rparr>"

text \<open>What the allocator needs in order not to panic: usable voices, a list without
  duplicates that holds the keys of the map, and map entries that point into the pool.\<close>

definition alloc_safe :: "VoiceAllocator \<Rightarrow> bool" where
  "alloc_safe va \<longleftrightarrow>
     list_all voice_ok (voices va) \<and> distinct (activeNotes va) \<and>
     set (activeNotes va) = dom (noteMap va) \<and>
     (\<forall>note i. noteMap va note = Some i \<longrightarrow> i < length (voices va))"

text \<open>The invariant of the allocator under \<open>NoteOn\<close>, \<open>NoteOff\<close> and \<open>AllNotesOff\<close>: no two
  notes share a voice, and every mapped voice reports active.\<close>

definition alloc_inv :: "VoiceAllocator \<Rightarrow> bool" where
  "alloc_inv va \<longleftrightarrow>
     alloc_safe va \<and> inj_on (noteMap va) (dom (noteMap va)) \<and>
     (\<forall>note i. noteMap va note = Some i \<longrightarrow> Voice_IsActive (voices va ! i) = Some True)"

text \<open>An operator whose envelope is in the Off stage.\<close>

definition op_off :: "FMOperator \<Rightarrow> bool" where
  "op_off op \<longleftrightarrow> stage (op_envelope op) = Off"

text \<open>A usable voice that reports active.\<close>

definition voice_on :: "Voice \<Rightarrow> bool" where
  "voice_on v \<longleftrightarrow> voice_ok v \<and> Voice_IsActive v = Some True"

text \<open>A sequence of calls for concrete runs: it fills the pool, steals, releases,
  retriggers and clears.\<close>

definition calls_example :: "Call list" where
  "calls_example =
     [NoteOn 60 1, NoteOn 64 (1/2), NoteOn 67 1, NoteOn 72 1, NoteOn 76 1, NoteOff 64,
      NoteOn 60 1, NoteOn 67 (3/4), AllNotesOff, NoteOn 48 1]"


definition voice_output :: "Voice \<Rightarrow> real" where
  "voice_output v = (case Voice_Next v of Some (s, v') \<Rightarrow> s | None \<Rightarrow> 0)"

text \<open>An allocator for concrete runs: a square voice at 4 samples per second, triggered
  with velocity 1/2, and an idle one.\<close>

definition square_voice :: Voice where
  "square_voice = NewVoice Square 4"

definition square_voice_on :: Voice where
  "square_voice_on = the (Voice_NoteOn square_voice 57 (1/2))"

definition mix_example :: VoiceAllocator where
  "mix_example =
     \<lparr>voices = [square_voice_on, square_voice], noteMap = [57 \<mapsto> 0],
      va_instrument = defaultInst, va_sampleRate = 4, maxVoices = 2, activeNotes = [57]\<rparr>"

text \<open>The event that \<open>processRow\<close> reads for a channel at the cursor of the player, if it
  reads one.\<close>

definition row_event :: "Player \<Rightarrow> nat \<Rightarrow> TrackerNote option" where
  "row_event p ch =
     do { patternIdx \<leftarrow> go_index (Sequence (p_module p)) (currentPos p);
          pattern \<leftarrow> go_index (Patterns (p_module p)) patternIdx;
          if ch < length (Channels pattern)
          then go_index (Channels pattern ! ch) (currentRow p) else None }"

text \<open>A voice whose envelope (every operator envelope, for FM) is in the Sustain stage.\<close>

definition op_sustain :: "FMOperator \<Rightarrow> bool" where
  "op_sustain op \<longleftrightarrow> stage (op_envelope op) = Sustain"

definition sustained :: "Voice \<Rightarrow> bool" where
  "sustained v \<longleftrightarrow>
     (if fm_path v
      then (case fmInstrument v of None \<Rightarrow> False
            | Some fm \<Rightarrow> list_all op_sustain (operators fm))
      else (case envelope v of None \<Rightarrow> False | Some e \<Rightarrow> stage e = Sustain))"

text \<open>An allocator that cannot panic, and a player that cannot: its allocators cannot,
  and its cursor and the pattern indices of its sequence are not negative.\<close>

definition alloc_live :: "VoiceAllocator \<Rightarrow> bool" where
  "alloc_live va \<longleftrightarrow> alloc_safe va \<and> voices va \<noteq> []"

definition player_safe :: "Player \<Rightarrow> bool" where
  "player_safe p \<longleftrightarrow>
     list_all alloc_live (VoiceAllocators p) \<and> 0 \<le> currentPos p \<and> 0 \<le> currentRow p \<and>
     list_all (\<lambda>i. 0 \<le> i) (Sequence (p_module p))"

text \<open>A player of module \<open>m\<close> with \<open>n\<close> samples per row after \<open>k\<close> calls of \<open>Next\<close>, when
  the sequence is the single pattern 0 and that pattern has \<open>R\<close> rows: the cursor is at
  sample \<open>k\<close> of the pattern, or the player is done.\<close>

definition at_step :: "TrackerModule \<Rightarrow> nat \<Rightarrow> nat \<Rightarrow> nat \<Rightarrow> Player \<Rightarrow> bool" where
  "at_step m n R k p \<longleftrightarrow>
     p_module p = m \<and> samplesPerRow p = int n \<and> player_safe p \<and>
     (if k < R * n
      then currentPos p = 0 \<and> currentRow p = int (k div n) \<and>
           sampleCounter p = int (k mod n) \<and> \<not> p_done p
      else p_done p)"

text \<open>A module for concrete runs: tempo 120, one pattern of 4 rows and 1 channel (a note,
  two rests, a note-off), played once, no instruments of its own.\<close>

definition module_example :: TrackerModule where
  "module_example =
     \<lparr>Title = ''example'', Tempo = 120, TicksPerRow = 6,
      Patterns = [\<lparr>Rows = 4, Channels =
        [[\<lparr>Note = 60, tn_Instrument = 0, Volume = 1, Effect = [], Chord = []\<rparr>,
          \<lparr>Note = - 1, tn_Instrument = 0, Volume = 1, Effect = [], Chord = []\<rparr>,
          \<lparr>Note = - 1, tn_Instrument = 0, Volume = 1, Effect = [], Chord = []\<rparr>,
          \<lparr>Note = - 2, tn_Instrument = 0, Volume = 1, Effect = [], Chord = []\<rparr>]]\<rparr>],
      Sequence = [0], Instruments = []\<rparr>"

text \<open>What a rest leaves of an allocator over one sample: the note map and the list of
  active notes are the same, and a voice in Sustain is still in Sustain.\<close>

definition keeps_ringing :: "VoiceAllocator \<Rightarrow> VoiceAllocator \<Rightarrow> bool" where
  "keeps_ringing va va' \<longleftrightarrow>
     noteMap va' = noteMap va \<and> activeNotes va' = activeNotes va \<and>
     length (voices va') = length (voices va) \<and>
     (\<forall>i<length (voices va). sustained (voices va ! i) \<longrightarrow> sustained (voices va' ! i))"

text \<open>A player for concrete runs: the example module at the start of row 1 (a rest), one
  channel, whose first voice holds note 57 in Sustain.\<close>

definition square_voice_sustain :: Voice where
  "square_voice_sustain =
     square_voice_on\<lparr>envelope :=
       map_option (\<lambda>e. e\<lparr>stage := Sustain, level := sustainLevel e\<rparr>) (envelope square_voice_on)\<rparr>"

definition rest_player_example :: Player where
  "rest_player_example =
     \<lparr>p_module = module_example,
      VoiceAllocators = [mix_example\<lparr>voices := [square_voice_sustain, square_voice]\<rparr>],
      p_sampleRate = 4, currentPos = 0, currentRow = 1, sampleCounter = 0,
      samplesPerRow = 5512, p_done = False, maxPolyphony = 2\<rparr>"

section \<open>Envelope: the stages\<close>

lemma same_params_refl: "same_params e e"
  by (simp add: same_params_def)

lemma same_params_trans: "same_params a b \<Longrightarrow> same_params b c \<Longrightarrow> same_params a c"
  by (simp add: same_params_def)

lemma same_params_samples:
  assumes "same_params e e'"
  shows "attackSamples e' = attackSamples e" "decaySamples e' = decaySamples e"
    "releaseSamples e' = releaseSamples e"
  using assms by (simp_all add: same_params_def attackSamples_def decaySamples_def releaseSamples_def)

lemma advance_same_params: "same_params e (Envelope_advance e)"
  by (simp add: same_params_def Envelope_advance_def Envelope_Next_def Let_def
      split: EnvelopeStage.split)

lemma advance_attack_ramp:
  assumes "stage e = Attack" "attackSamples e \<noteq> 0" "sampleCount e < attackSamples e"
  shows "stage (Envelope_advance e) = Attack"
    "sampleCount (Envelope_advance e) = sampleCount e + 1"
    "level (Envelope_advance e) = of_int (sampleCount e) / of_int (attackSamples e)"
  using assms by (simp_all add: Envelope_advance_def Envelope_Next_def)

lemma advance_attack_end:
  assumes "stage e = Attack" "attackSamples e \<le> sampleCount e"
  shows "stage (Envelope_advance e) = Decay" "sampleCount (Envelope_advance e) = 0"
    "level (Envelope_advance e) = 1"
  using assms by (simp_all add: Envelope_advance_def Envelope_Next_def)

lemma advance_decay_ramp:
  assumes "stage e = Decay" "decaySamples e \<noteq> 0" "sampleCount e < decaySamples e"
  shows "stage (Envelope_advance e) = Decay"
    "sampleCount (Envelope_advance e) = sampleCount e + 1"
  using assms by (simp_all add: Envelope_advance_def Envelope_Next_def Let_def)

lemma advance_decay_end:
  assumes "stage e = Decay" "decaySamples e \<le> sampleCount e"
  shows "stage (Envelope_advance e) = Sustain"
    "level (Envelope_advance e) = sustainLevel e"
  using assms by (simp_all add: Envelope_advance_def Envelope_Next_def)

lemma advance_sustain:
  assumes "stage e = Sustain"
  shows "stage (Envelope_advance e) = Sustain" "level (Envelope_advance e) = sustainLevel e"
  using assms by (simp_all add: Envelope_advance_def Envelope_Next_def)

lemma advance_release_ramp:
  assumes "stage e = Release" "releaseSamples e \<noteq> 0" "sampleCount e < releaseSamples e"
  shows "stage (Envelope_advance e) = Release"
    "sampleCount (Envelope_advance e) = sampleCount e + 1"
    "level (Envelope_advance e) =
       sustainLevel e * (1 - of_int (sampleCount e) / of_int (releaseSamples e))"
  using assms by (simp_all add: Envelope_advance_def Envelope_Next_def Let_def)

lemma advance_release_end:
  assumes "stage e = Release" "releaseSamples e \<le> sampleCount e"
  shows "stage (Envelope_advance e) = Off" "level (Envelope_advance e) = 0"
  using assms by (simp_all add: Envelope_advance_def Envelope_Next_def)

lemma funpow_same_params: "same_params e ((Envelope_advance ^^ k) e)"
proof (induction k)
  case 0
  show ?case by (simp add: same_params_refl)
next
  case (Suc k)
  from Suc advance_same_params [of "(Envelope_advance ^^ k) e"]
  show ?case by (simp add: same_params_trans)
qed

lemma attack_run:
  assumes "stage e = Attack" "sampleCount e + int k \<le> attackSamples e" "0 \<le> sampleCount e"
  shows "stage ((Envelope_advance ^^ k) e) = Attack \<and>
         sampleCount ((Envelope_advance ^^ k) e) = sampleCount e + int k"
  using assms(2)
proof (induction k)
  case 0
  show ?case using assms(1) by simp
next
  case (Suc k)
  let ?e = "(Envelope_advance ^^ k) e"
  from Suc have st: "stage ?e = Attack" and sc: "sampleCount ?e = sampleCount e + int k"
    by simp_all
  have n: "attackSamples ?e = attackSamples e"
    using same_params_samples(1) [OF funpow_same_params] .
  from Suc.prems assms(3) sc n have "attackSamples ?e \<noteq> 0" "sampleCount ?e < attackSamples ?e"
    by simp_all
  from advance_attack_ramp(1,2) [OF st this] sc show ?case by simp
qed

lemma attack_done:
  assumes "stage e = Attack" "sampleCount e = 0"
  defines "e' \<equiv> (Envelope_advance ^^ (nat (attackSamples e) + 1)) e"
  shows "stage e' = Decay" "sampleCount e' = 0" "level e' = 1" "same_params e e'"
proof -
  let ?k = "nat (attackSamples e)"
  let ?e = "(Envelope_advance ^^ ?k) e"
  have run: "stage ?e = Attack \<and> attackSamples e \<le> sampleCount ?e"
  proof (cases "attackSamples e \<le> 0")
    case True
    then show ?thesis using assms(1,2) by simp
  next
    case False
    then have "sampleCount e + int ?k \<le> attackSamples e" using assms(2) by simp
    from attack_run [OF assms(1) this] assms(2) False show ?thesis by simp
  qed
  have n: "attackSamples ?e = attackSamples e"
    using same_params_samples(1) [OF funpow_same_params] .
  have e': "e' = Envelope_advance ?e" by (simp add: e'_def)
  from run n have st: "stage ?e = Attack" and le: "attackSamples ?e \<le> sampleCount ?e"
    by simp_all
  show "stage e' = Decay" "sampleCount e' = 0" "level e' = 1"
    unfolding e' using advance_attack_end [OF st le] by simp_all
  show "same_params e e'" unfolding e'_def by (rule funpow_same_params)
qed

lemma decay_run:
  assumes "stage e = Decay" "sampleCount e + int k \<le> decaySamples e" "0 \<le> sampleCount e"
  shows "stage ((Envelope_advance ^^ k) e) = Decay \<and>
         sampleCount ((Envelope_advance ^^ k) e) = sampleCount e + int k"
  using assms(2)
proof (induction k)
  case 0
  show ?case using assms(1) by simp
next
  case (Suc k)
  let ?e = "(Envelope_advance ^^ k) e"
  from Suc have st: "stage ?e = Decay" and sc: "sampleCount ?e = sampleCount e + int k"
    by simp_all
  have n: "decaySamples ?e = decaySamples e"
    using same_params_samples(2) [OF funpow_same_params] .
  from Suc.prems assms(3) sc n have "decaySamples ?e \<noteq> 0" "sampleCount ?e < decaySamples ?e"
    by simp_all
  from advance_decay_ramp [OF st this] sc show ?case by simp
qed

lemma decay_done:
  assumes "stage e = Decay" "sampleCount e = 0"
  defines "e' \<equiv> (Envelope_advance ^^ (nat (decaySamples e) + 1)) e"
  shows "stage e' = Sustain" "level e' = sustainLevel e" "same_params e e'"
proof -
  let ?k = "nat (decaySamples e)"
  let ?e = "(Envelope_advance ^^ ?k) e"
  have run: "stage ?e = Decay \<and> decaySamples e \<le> sampleCount ?e"
  proof (cases "decaySamples e \<le> 0")
    case True
    then show ?thesis using assms(1,2) by simp
  next
    case False
    then have "sampleCount e + int ?k \<le> decaySamples e" using assms(2) by simp
    from decay_run [OF assms(1) this] assms(2) False show ?thesis by simp
  qed
  have sp: "same_params e ?e" by (rule funpow_same_params)
  have n: "decaySamples ?e = decaySamples e" using same_params_samples(2) [OF sp] .
  have e': "e' = Envelope_advance ?e" by (simp add: e'_def)
  from run n have st: "stage ?e = Decay" and le: "decaySamples ?e \<le> sampleCount ?e"
    by simp_all
  show "stage e' = Sustain" unfolding e' using advance_decay_end(1) [OF st le] .
  show "level e' = sustainLevel e"
    unfolding e' using advance_decay_end(2) [OF st le] sp by (simp add: same_params_def)
  show "same_params e e'" unfolding e'_def by (rule funpow_same_params)
qed

lemma release_run:
  assumes "stage e = Release" "sampleCount e + int k \<le> releaseSamples e" "0 \<le> sampleCount e"
  shows "stage ((Envelope_advance ^^ k) e) = Release \<and>
         sampleCount ((Envelope_advance ^^ k) e) = sampleCount e + int k"
  using assms(2)
proof (induction k)
  case 0
  show ?case using assms(1) by simp
next
  case (Suc k)
  let ?e = "(Envelope_advance ^^ k) e"
  from Suc have st: "stage ?e = Release" and sc: "sampleCount ?e = sampleCount e + int k"
    by simp_all
  have n: "releaseSamples ?e = releaseSamples e"
    using same_params_samples(3) [OF funpow_same_params] .
  from Suc.prems assms(3) sc n
  have "releaseSamples ?e \<noteq> 0" "sampleCount ?e < releaseSamples ?e"
    by simp_all
  from advance_release_ramp(1,2) [OF st this] sc show ?case by simp
qed

lemma release_done:
  assumes "stage e = Release" "sampleCount e = 0"
  defines "e' \<equiv> (Envelope_advance ^^ (nat (releaseSamples e) + 1)) e"
  shows "stage e' = Off" "level e' = 0"
proof -
  let ?k = "nat (releaseSamples e)"
  let ?e = "(Envelope_advance ^^ ?k) e"
  have run: "stage ?e = Release \<and> releaseSamples e \<le> sampleCount ?e"
  proof (cases "releaseSamples e \<le> 0")
    case True
    then show ?thesis using assms(1,2) by simp
  next
    case False
    then have "sampleCount e + int ?k \<le> releaseSamples e" using assms(2) by simp
    from release_run [OF assms(1) this] assms(2) False show ?thesis by simp
  qed
  have n: "releaseSamples ?e = releaseSamples e"
    using same_params_samples(3) [OF funpow_same_params] .
  have e': "e' = Envelope_advance ?e" by (simp add: e'_def)
  from run n have st: "stage ?e = Release" and le: "releaseSamples ?e \<le> sampleCount ?e"
    by simp_all
  show "stage e' = Off" "level e' = 0"
    unfolding e' using advance_release_end [OF st le] by simp_all
qed

lemma trigger_same_params: "same_params e (Envelope_Trigger e)"
  by (simp add: same_params_def Envelope_Trigger_def)

lemma release_same_params: "same_params e (Envelope_Release e)"
  by (simp add: same_params_def Envelope_Release_def)

lemma after_attack_facts:
  shows "stage (after_attack e) = Decay" "sampleCount (after_attack e) = 0"
    "level (after_attack e) = 1" "same_params e (after_attack e)"
proof -
  let ?t = "Envelope_Trigger e"
  have t: "stage ?t = Attack" "sampleCount ?t = 0" by (simp_all add: Envelope_Trigger_def)
  have n: "attackSamples ?t = attackSamples e"
    using same_params_samples(1) [OF trigger_same_params] .
  have a: "after_attack e = (Envelope_advance ^^ (nat (attackSamples ?t) + 1)) ?t"
    by (simp add: after_attack_def n)
  show "stage (after_attack e) = Decay" "sampleCount (after_attack e) = 0"
    "level (after_attack e) = 1"
    unfolding a using attack_done(1,2,3) [OF t] by simp_all
  show "same_params e (after_attack e)"
    unfolding a using attack_done(4) [OF t] trigger_same_params [of e]
    by (rule_tac same_params_trans)
qed

lemma after_decay_facts:
  shows "stage (after_decay e) = Sustain" "level (after_decay e) = sustainLevel e"
    "same_params e (after_decay e)"
proof -
  let ?a = "after_attack e"
  have sp: "same_params e ?a" by (rule after_attack_facts(4))
  have n: "decaySamples ?a = decaySamples e" using same_params_samples(2) [OF sp] .
  have d: "after_decay e = (Envelope_advance ^^ (nat (decaySamples ?a) + 1)) ?a"
    by (simp add: after_decay_def n)
  note dd = decay_done [OF after_attack_facts(1,2) [of e]]
  show "stage (after_decay e) = Sustain" unfolding d by (rule dd(1))
  show "level (after_decay e) = sustainLevel e"
    unfolding d using dd(2) sp by (simp add: same_params_def)
  show "same_params e (after_decay e)"
    unfolding d using sp dd(3) by (rule same_params_trans)
qed

lemma after_release_facts:
  shows "stage (after_release e) = Off" "level (after_release e) = 0"
proof -
  let ?r = "Envelope_Release (after_decay e)"
  have r: "stage ?r = Release" "sampleCount ?r = 0"
    using after_decay_facts(1) [of e] by (simp_all add: Envelope_Release_def)
  have sp: "same_params e ?r"
    using after_decay_facts(3) release_same_params by (rule same_params_trans)
  have n: "releaseSamples ?r = releaseSamples e" using same_params_samples(3) [OF sp] .
  have d: "after_release e = (Envelope_advance ^^ (nat (releaseSamples ?r) + 1)) ?r"
    by (simp add: after_release_def n)
  show "stage (after_release e) = Off" "level (after_release e) = 0"
    unfolding d using release_done [OF r] by simp_all
qed

lemma envelope_example_samples:
  "attackSamples envelope_example = 2" "decaySamples envelope_example = 2"
  "releaseSamples envelope_example = 2"
  by (simp_all add: envelope_example_def NewEnvelope_def attackSamples_def decaySamples_def
      releaseSamples_def go_int_def)

section \<open>Envelope: the claims\<close>

text \<open>
  C2, as the specification words it, counts exactly \<open>attackSamples\<close> advances after
  \<open>trigger()\<close> and expects level 1. The envelope below has 2 attack samples; after the
  trigger and 2 advances it is still in the attack ramp, at level 1/2.
\<close>

theorem envelope_attack_counterexample:
  "level ((Envelope_advance ^^ nat (attackSamples envelope_example))
            (Envelope_Trigger envelope_example)) \<noteq> 1"
  by (simp add: envelope_example_samples eval_nat_numeral)
     (simp add: envelope_example_def NewEnvelope_def Envelope_Trigger_def Envelope_advance_def
        Envelope_Next_def attackSamples_def go_int_def)

text \<open>
  C2, amended: every stage takes one advance more than its sample count. For every
  envelope, after \<open>trigger()\<close> and \<open>attackSamples + 1\<close> advances the level is 1; after
  \<open>decaySamples + 1\<close> further advances it is the sustain level; after \<open>release()\<close> and
  \<open>releaseSamples + 1\<close> advances it is 0 and the envelope is not active; and
  \<open>release()\<close> in the Off stage changes nothing.
\<close>

theorem envelope_adsr_levels:
  "level (after_attack e) = 1 \<and>
   level (after_decay e) = sustainLevel e \<and>
   level (after_release e) = 0 \<and> \<not> Envelope_IsActive (after_release e) \<and>
   (stage e = Off \<longrightarrow> Envelope_Release e = e)"
  using after_attack_facts(3) [of e] after_decay_facts(2) [of e] after_release_facts [of e]
  by (simp add: Envelope_IsActive_def Envelope_Release_def)

theorem envelope_adsr_levels_witness:
  "stage envelope_example = Off \<and>
   level (after_attack envelope_example) = 1 \<and>
   level (after_decay envelope_example) = 1/4 \<and>
   level (after_release envelope_example) = 0 \<and>
   \<not> Envelope_IsActive (after_release envelope_example) \<and>
   Envelope_Release envelope_example = envelope_example"
proof -
  have off: "stage envelope_example = Off" "sustainLevel envelope_example = 1/4"
    by (simp_all add: envelope_example_def NewEnvelope_def)
  from envelope_adsr_levels [of envelope_example] off show ?thesis by simp
qed

text \<open>
  C3 says that the release ramp starts from the level present when \<open>release()\<close> is
  called. \<open>Next\<close> takes \<open>startLevel\<close> from the sustain level instead. Released in the
  middle of its attack, at level 1/2, the envelope below gives the sustain level 1/4 as
  its first release sample and 1/8 as its second.
\<close>

theorem release_ramp_starts_at_sustain:
  "level ((Envelope_advance ^^ 2) (Envelope_Trigger envelope_example)) = 1/2 \<and>
   stage ((Envelope_advance ^^ 2) (Envelope_Trigger envelope_example)) = Attack \<and>
   level (Envelope_advance (Envelope_Release
            ((Envelope_advance ^^ 2) (Envelope_Trigger envelope_example)))) = 1/4 \<and>
   level ((Envelope_advance ^^ 2) (Envelope_Release
            ((Envelope_advance ^^ 2) (Envelope_Trigger envelope_example)))) = 1/8"
  by (simp add: eval_nat_numeral)
     (simp add: envelope_example_def NewEnvelope_def Envelope_Trigger_def Envelope_Release_def
        Envelope_advance_def Envelope_Next_def attackSamples_def releaseSamples_def go_int_def)

section \<open>Voice: held notes\<close>

lemma Envelope_Next_held: "env_held e \<Longrightarrow> env_held (snd (Envelope_Next e))"
  by (auto simp: env_held_def Envelope_Next_def Let_def)

lemma env_held_active: "env_held e \<Longrightarrow> Envelope_IsActive e"
  by (auto simp: env_held_def Envelope_IsActive_def)

lemma trigger_held: "env_held (Envelope_Trigger e)"
  by (simp add: env_held_def Envelope_Trigger_def)

lemma FMOperator_Next_envelope:
  "op_envelope (snd (FMOperator_Next op m)) = snd (Envelope_Next (op_envelope op))"
  by (simp add: FMOperator_Next_def Let_def case_prod_beta)

lemma FMOperator_Next_held: "op_held op \<Longrightarrow> op_held (snd (FMOperator_Next op m))"
  by (simp add: op_held_def FMOperator_Next_envelope Envelope_Next_held)

lemma list_all_update: "list_all P xs \<Longrightarrow> P x \<Longrightarrow> list_all P (xs[i := x])"
proof (induction xs arbitrary: i)
  case Nil
  then show ?case by simp
next
  case (Cons a xs)
  then show ?case by (cases i) simp_all
qed

lemma FMInstrument_Next_held:
  assumes "list_all op_held (operators fm)"
  shows "list_all op_held (operators (snd (FMInstrument_Next fm)))"
    and "length (operators (snd (FMInstrument_Next fm))) = length (operators fm)"
proof -
  have step: "\<And>i m. i < length (operators fm) \<Longrightarrow>
      op_held (snd (FMOperator_Next (operators fm ! i) m))"
    using assms FMOperator_Next_held by (simp add: list_all_length)
  show "list_all op_held (operators (snd (FMInstrument_Next fm)))"
    using assms
    by (cases "algorithm fm")
       (simp_all add: FMInstrument_Next_def Let_def case_prod_beta list_all_update step)
  show "length (operators (snd (FMInstrument_Next fm))) = length (operators fm)"
    by (cases "algorithm fm") (simp_all add: FMInstrument_Next_def Let_def case_prod_beta)
qed

lemma held_IsActive:
  "operators fm \<noteq> [] \<Longrightarrow> list_all op_held (operators fm) \<Longrightarrow> FMInstrument_IsActive fm"
  by (cases "operators fm")
     (simp_all add: FMInstrument_IsActive_def FMOperator_IsActive_def op_held_def env_held_active)

lemma voice_held_IsActive: "voice_held v \<Longrightarrow> Voice_IsActive v = Some True"
  by (auto simp: voice_held_def Voice_IsActive_def split: option.splits if_splits)

lemma voice_held_Next:
  assumes "voice_held v"
  shows "\<exists>s v'. Voice_Next v = Some (s, v') \<and> voice_held v'"
proof (cases "fm_path v")
  case True
  with assms obtain fm where fm: "fmInstrument v = Some fm" "operators fm \<noteq> []"
    "list_all op_held (operators fm)" "active v" "useFM v"
    by (auto simp: voice_held_def fm_path_def split: option.splits)
  let ?fm' = "snd (FMInstrument_Next fm)"
  have h: "list_all op_held (operators ?fm')" "operators ?fm' \<noteq> []"
    using FMInstrument_Next_held [OF fm(3)] fm(2) by auto
  then have act: "FMInstrument_IsActive ?fm'" by (simp add: held_IsActive)
  show ?thesis
    using True fm h act
    by (simp add: Voice_Next_def voice_held_def fm_path_def case_prod_beta Let_def)
next
  case False
  with assms obtain o' e where oe: "oscillator v = Some o'" "envelope v = Some e" "env_held e"
    "active v"
    by (auto simp: voice_held_def split: option.splits)
  let ?e' = "snd (Envelope_Next e)"
  have h: "env_held ?e'" using oe(3) by (rule Envelope_Next_held)
  then have act: "Envelope_IsActive ?e'" by (rule env_held_active)
  show ?thesis
    using False oe h act
    by (simp add: Voice_Next_def voice_held_def fm_path_def case_prod_beta Let_def)
qed

lemma voice_held_run: "voice_held v \<Longrightarrow> \<exists>vk. Voice_run k v = Some vk \<and> voice_held vk"
proof (induction k arbitrary: v)
  case 0
  then show ?case by simp
next
  case (Suc k)
  from voice_held_Next [OF Suc.prems] obtain s v' where
    n: "Voice_Next v = Some (s, v')" and h: "voice_held v'" by blast
  from Suc.IH [OF h] n show ?case by simp
qed

lemma NoteOn_held:
  assumes "Voice_NoteOn v note velocity = Some v1" "fm_has_operators v"
  shows "voice_held v1"
proof (cases "fm_path v")
  case True
  then obtain fm where fm: "fmInstrument v = Some fm" "useFM v"
    by (auto simp: fm_path_def)
  with assms(2) have ne: "operators fm \<noteq> []" by (simp add: fm_has_operators_def)
  have "list_all op_held (operators (FMInstrument_NoteOn fm note velocity))"
    by (simp add: FMInstrument_NoteOn_def Let_def list_all_iff op_held_def FMOperator_Trigger_def
        FMOperator_SetFrequency_def trigger_held)
  moreover have "operators (FMInstrument_NoteOn fm note velocity) \<noteq> []"
    using ne by (simp add: FMInstrument_NoteOn_def Let_def)
  ultimately show ?thesis
    using assms(1) True fm
    by (auto simp: Voice_NoteOn_def Let_def voice_held_def fm_path_def)
next
  case False
  with assms(1) show ?thesis
    by (auto simp: Voice_NoteOn_def Let_def voice_held_def fm_path_def trigger_held
        split: Option.bind_splits)
qed

lemma length_preset_op: "length (operators (preset_op fm i r adsr l)) = length (operators fm)"
  by (cases adsr)
     (simp add: preset_op_def SetOperatorLevel_def SetOperatorEnvelope_def SetOperatorRatio_def)

lemma length_NewFMInstrument: "length (operators (NewFMInstrument n alg rate)) = n"
  by (simp add: NewFMInstrument_def)

lemma length_fm_preset: "2 \<le> length (operators (fm_preset name rate))"
  by (simp add: fm_preset_def NewPianoFMInstrument_def NewElectricPianoFMInstrument_def
      NewFMBassFMInstrument_def NewFMLeadFMInstrument_def NewFMBrassFMInstrument_def
      NewFMBellFMInstrument_def NewFMArpFMInstrument_def Let_def SetModulationIndex_def
      length_preset_op length_NewFMInstrument)

text \<open>Every voice that an allocator builds has its operators; a voice built on an
  instrument without operators reports idle after its first sample.\<close>

lemma pool_voice_has_operators: "pool_voice inst rate = Some v \<Longrightarrow> fm_has_operators v"
proof (cases "IsFM inst")
  case True
  assume "pool_voice inst rate = Some v"
  with True have v: "v = NewFMVoice (fm_preset (FMPreset inst) rate)"
    by (simp add: pool_voice_def)
  from length_fm_preset [of "FMPreset inst" rate]
  have "operators (fm_preset (FMPreset inst) rate) \<noteq> []" by auto
  then show ?thesis by (simp add: v fm_has_operators_def NewFMVoice_def)
next
  case False
  assume "pool_voice inst rate = Some v"
  with False show ?thesis
    by (auto simp: pool_voice_def Voice_SetInstrument_def NewVoice_def fm_has_operators_def
        split: if_splits)
qed

lemma voice_without_operators_goes_idle:
  "\<exists>v1 s v2. Voice_NoteOn (NewFMVoice (NewFMInstrument 0 alg rate)) n vel = Some v1 \<and>
     Voice_IsActive v1 = Some True \<and> Voice_Next v1 = Some (s, v2) \<and>
     Voice_IsActive v2 = Some False"
  by (simp add: Voice_NoteOn_def NewFMVoice_def NewFMInstrument_def fm_path_def
      FMInstrument_NoteOn_def Voice_IsActive_def Voice_Next_def FMInstrument_IsActive_def
      FMInstrument_Next_def Let_def)

section \<open>Voice: the claim\<close>

text \<open>
  C10. A voice on which \<open>NoteOn\<close> has been called, and \<open>NoteOff\<close> not since, reports
  active after any number of per-sample advances, and no advance panics: the envelope
  leaves Attack, Decay and Sustain only through \<open>Release\<close>, whatever the sustain level.
  An FM voice needs at least one operator for this (an instrument without operators
  never reports active, so the first advance clears the trigger flag); every algorithm
  requires two or more and every preset has them.
\<close>

theorem triggered_voice_stays_active:
  assumes "Voice_NoteOn v note velocity = Some v1" "fm_has_operators v"
  shows "\<exists>vk. Voice_run k v1 = Some vk \<and> Voice_IsActive vk = Some True"
  using voice_held_run [OF NoteOn_held [OF assms]] voice_held_IsActive by blast

theorem triggered_voice_stays_active_witness:
  "Voice_NoteOn piano_voice 60 1 = Some piano_voice_on \<and> fm_has_operators piano_voice \<and>
   (\<exists>vk. Voice_run 100000 piano_voice_on = Some vk \<and> Voice_IsActive vk = Some True)"
proof -
  have on: "Voice_NoteOn piano_voice 60 1 = Some piano_voice_on"
    by (simp add: Voice_NoteOn_def piano_voice_def piano_voice_on_def NewFMVoice_def fm_path_def)
  have "length (operators (NewPianoFMInstrument 44100)) = 4"
    by (simp add: NewPianoFMInstrument_def Let_def SetModulationIndex_def length_preset_op
        length_NewFMInstrument)
  then have ops: "fm_has_operators piano_voice"
    by (auto simp: fm_has_operators_def piano_voice_def NewFMVoice_def)
  from triggered_voice_stays_active [OF on ops] on ops show ?thesis by blast
qed

section \<open>Voice allocator: the invariant\<close>

lemma voice_ok_IsActive: "voice_ok v \<Longrightarrow> \<exists>a. Voice_IsActive v = Some a"
  by (auto simp: voice_ok_def Voice_IsActive_def fm_path_def)

lemma voice_ok_NoteOn:
  assumes "voice_ok v"
  shows "\<exists>v'. Voice_NoteOn v note velocity = Some v' \<and> voice_ok v' \<and>
           Voice_IsActive v' = Some True"
  using assms
  by (auto simp: voice_ok_def Voice_NoteOn_def Voice_IsActive_def fm_path_def Let_def)

lemma Release_IsActive: "Envelope_IsActive (Envelope_Release e) = Envelope_IsActive e"
  by (simp add: Envelope_IsActive_def Envelope_Release_def)

lemma FM_NoteOff_IsActive: "FMInstrument_IsActive (FMInstrument_NoteOff fm) = FMInstrument_IsActive fm"
  by (simp add: FMInstrument_IsActive_def FMInstrument_NoteOff_def list_ex_iff
      FMOperator_IsActive_def FMOperator_Release_def Release_IsActive)

lemma voice_ok_NoteOff:
  assumes "voice_ok v"
  shows "\<exists>v'. Voice_NoteOff v = Some v' \<and> voice_ok v' \<and> Voice_IsActive v' = Voice_IsActive v"
proof (cases "fm_path v")
  case True
  then obtain fm where fm: "fmInstrument v = Some fm" "useFM v" by (auto simp: fm_path_def)
  then show ?thesis
    by (simp add: Voice_NoteOff_def Voice_IsActive_def fm_path_def voice_ok_def
        FM_NoteOff_IsActive)
next
  case False
  with assms obtain o' e where oe: "oscillator v = Some o'" "envelope v = Some e"
    by (auto simp: voice_ok_def)
  with False show ?thesis
    by (simp add: Voice_NoteOff_def Voice_IsActive_def fm_path_def voice_ok_def
        Release_IsActive)
qed

lemma voice_ok_Next:
  assumes "voice_ok v"
  shows "\<exists>s v'. Voice_Next v = Some (s, v') \<and> voice_ok v'"
  using assms
  by (auto simp: voice_ok_def Voice_Next_def fm_path_def Let_def case_prod_beta)

lemma SetOperatorRatio_off:
  "list_all op_off (operators fm) \<Longrightarrow> list_all op_off (operators (SetOperatorRatio fm i r))"
  by (auto simp: SetOperatorRatio_def list_all_length op_off_def FMOperator_SetRatio_def
      nth_list_update)

lemma SetOperatorLevel_off:
  "list_all op_off (operators fm) \<Longrightarrow> list_all op_off (operators (SetOperatorLevel fm i l))"
  by (auto simp: SetOperatorLevel_def list_all_length op_off_def FMOperator_SetOutputLevel_def
      nth_list_update)

lemma SetOperatorEnvelope_off:
  "list_all op_off (operators fm) \<Longrightarrow>
   list_all op_off (operators (SetOperatorEnvelope fm i a d s r))"
  by (simp add: SetOperatorEnvelope_def list_all_update op_off_def FMOperator_SetEnvelope_def
      NewEnvelope_def)

lemma preset_op_off:
  "list_all op_off (operators fm) \<Longrightarrow> list_all op_off (operators (preset_op fm i r adsr l))"
  by (cases adsr)
     (simp add: preset_op_def SetOperatorRatio_off SetOperatorLevel_off SetOperatorEnvelope_off)

lemma NewFMInstrument_off: "list_all op_off (operators (NewFMInstrument n alg rate))"
  by (simp add: NewFMInstrument_def list_all_length op_off_def NewFMOperator_def NewEnvelope_def)

lemma presets_off:
  "list_all op_off (operators (NewPianoFMInstrument rate))"
  "list_all op_off (operators (NewElectricPianoFMInstrument rate))"
  "list_all op_off (operators (NewFMBassFMInstrument rate))"
  "list_all op_off (operators (NewFMLeadFMInstrument rate))"
  "list_all op_off (operators (NewFMBrassFMInstrument rate))"
  "list_all op_off (operators (NewFMBellFMInstrument rate))"
  "list_all op_off (operators (NewFMArpFMInstrument rate))"
  by (simp_all add: NewPianoFMInstrument_def NewElectricPianoFMInstrument_def
      NewFMBassFMInstrument_def NewFMLeadFMInstrument_def NewFMBrassFMInstrument_def
      NewFMBellFMInstrument_def NewFMArpFMInstrument_def Let_def SetModulationIndex_def
      preset_op_off NewFMInstrument_off)

lemma fm_preset_off: "list_all op_off (operators (fm_preset name rate))"
  by (simp only: fm_preset_def presets_off if_split [where P="\<lambda>fm. list_all op_off (operators fm)"]
      simp_thms)

lemma off_not_active: "list_all op_off (operators fm) \<Longrightarrow> \<not> FMInstrument_IsActive fm"
  by (simp add: FMInstrument_IsActive_def list_ex_iff list_all_iff op_off_def
      FMOperator_IsActive_def Envelope_IsActive_def)

lemma pool_voice_ok:
  "\<exists>v. pool_voice inst rate = Some v \<and> voice_ok v \<and> Voice_IsActive v = Some False"
proof (cases "IsFM inst")
  case True
  then show ?thesis
    using off_not_active [OF fm_preset_off]
    by (simp add: pool_voice_def NewFMVoice_def voice_ok_def fm_path_def Voice_IsActive_def)
next
  case False
  then show ?thesis
    by (simp add: pool_voice_def NewVoice_def Voice_SetInstrument_def voice_ok_def
      fm_path_def Voice_IsActive_def Envelope_IsActive_def NewEnvelope_def)
qed

lemma first_inactive_total: "list_all voice_ok vs \<Longrightarrow> \<exists>r. first_inactive vs k = Some r"
proof (induction vs arbitrary: k)
  case Nil
  show ?case by simp
next
  case (Cons v vs)
  then obtain a where "Voice_IsActive v = Some a" using voice_ok_IsActive by auto
  with Cons show ?case by simp
qed

lemma first_inactive_Some:
  "first_inactive vs k = Some (Some i) \<Longrightarrow>
   k \<le> i \<and> i < k + length vs \<and> Voice_IsActive (vs ! (i - k)) = Some False"
proof (induction vs arbitrary: k)
  case Nil
  then show ?case by simp
next
  case (Cons v vs)
  show ?case
  proof (cases "Voice_IsActive v")
    case None
    with Cons.prems show ?thesis by simp
  next
    case (Some a)
    show ?thesis
    proof (cases a)
      case True
      with Some Cons.prems have "first_inactive vs (Suc k) = Some (Some i)" by simp
      from Cons.IH [OF this] show ?thesis by (auto simp: nth_Cons' Suc_diff_Suc)
    next
      case False
      with Some Cons.prems show ?thesis by simp
    qed
  qed
qed

lemma first_inactive_None:
  "first_inactive vs k = Some None \<Longrightarrow> list_all (\<lambda>v. Voice_IsActive v = Some True) vs"
proof (induction vs arbitrary: k)
  case Nil
  show ?case by simp
next
  case (Cons v vs)
  then show ?case by (cases "Voice_IsActive v") (auto split: if_splits)
qed

lemma trigger_voice_ok:
  assumes "i < length (voices va)" "voice_ok (voices va ! i)"
  shows "\<exists>v'. trigger_voice va i note velocity = Some (va\<lparr>voices := (voices va)[i := v']\<rparr>) \<and>
           voice_on v'"
  using voice_ok_NoteOn [OF assms(2), of "note" velocity] assms(1)
  by (auto simp: trigger_voice_def voice_on_def)

lemma NoteOn_cases:
  assumes safe: "alloc_safe va" and on: "VoiceAllocator_NoteOn va note velocity = Some va'"
  obtains
    (retrigger) i v' where "noteMap va note = Some i" "i < length (voices va)" "voice_on v'"
      "va' = va\<lparr>voices := (voices va)[i := v']\<rparr>"
  | (allocate) i v' where "noteMap va note = None" "i < length (voices va)"
      "Voice_IsActive (voices va ! i) = Some False" "voice_on v'"
      "va' = va\<lparr>voices := (voices va)[i := v'], noteMap := (noteMap va)(note \<mapsto> i),
                 activeNotes := activeNotes va @ [note]\<rparr>"
  | (steal) oldest rest i v' where "noteMap va note = None"
      "activeNotes va = oldest # rest" "noteMap va oldest = Some i" "i < length (voices va)"
      "voice_on v'"
      "va' = va\<lparr>voices := (voices va)[i := v'],
                 noteMap := ((noteMap va)(oldest := None))(note \<mapsto> i),
                 activeNotes := rest @ [note]\<rparr>"
  | (fallback) v' where "noteMap va note = None" "activeNotes va = []" "voices va \<noteq> []"
      "voice_on v'"
      "va' = va\<lparr>voices := (voices va)[0 := v'], noteMap := (noteMap va)(note \<mapsto> 0),
                 activeNotes := [note]\<rparr>"
proof -
  have oks: "\<And>i. i < length (voices va) \<Longrightarrow> voice_ok (voices va ! i)"
    using safe by (simp add: alloc_safe_def list_all_length)
  have rng: "\<And>n i. noteMap va n = Some i \<Longrightarrow> i < length (voices va)"
    using safe by (simp add: alloc_safe_def)
  show thesis
  proof (cases "noteMap va note")
    case (Some i)
    have i: "i < length (voices va)" using rng Some by blast
    have oki: "voice_ok (voices va ! i)" using oks i by blast
    from trigger_voice_ok [OF i oki, of "note" velocity] obtain v' where
      "trigger_voice va i note velocity = Some (va\<lparr>voices := (voices va)[i := v']\<rparr>)" "voice_on v'"
      by blast
    with on Some i show thesis by (intro retrigger [of i v']) (simp_all add: VoiceAllocator_NoteOn_def)
  next
    case None
    have "list_all voice_ok (voices va)" using safe by (simp add: alloc_safe_def)
    from first_inactive_total [OF this, of 0]
    obtain sel where sel: "first_inactive (voices va) 0 = Some sel" by blast
    show thesis
    proof (cases sel)
      case (Some i)
      from first_inactive_Some [of "voices va" 0 i] sel Some
      have i: "i < length (voices va)" and off: "Voice_IsActive (voices va ! i) = Some False"
        by simp_all
      have oki: "voice_ok (voices va ! i)" using oks i by blast
      from trigger_voice_ok [OF i oki, of "note" velocity] obtain v' where
        t: "trigger_voice va i note velocity = Some (va\<lparr>voices := (voices va)[i := v']\<rparr>)"
        and v': "voice_on v'" by blast
      from on None sel Some t
      have "va' = va\<lparr>voices := (voices va)[i := v'], noteMap := (noteMap va)(note \<mapsto> i),
                 activeNotes := activeNotes va @ [note]\<rparr>"
        by (simp add: VoiceAllocator_NoteOn_def)
      with None i off v' show thesis by (intro allocate [of i v'])
    next
      case noSel: None
      show thesis
      proof (cases "activeNotes va")
        case Nil
        with on None sel noSel have ne: "voices va \<noteq> []"
          by (auto simp: VoiceAllocator_NoteOn_def split: if_splits)
        then have z: "0 < length (voices va)" by simp
        have okz: "voice_ok (voices va ! 0)" using oks z by blast
        from trigger_voice_ok [OF z okz, of "note" velocity] obtain v' where
          t: "trigger_voice va 0 note velocity = Some (va\<lparr>voices := (voices va)[0 := v']\<rparr>)"
          and v': "voice_on v'" by blast
        from on None sel noSel Nil ne t
        have "va' = va\<lparr>voices := (voices va)[0 := v'], noteMap := (noteMap va)(note \<mapsto> 0),
                 activeNotes := [note]\<rparr>"
          by (simp add: VoiceAllocator_NoteOn_def)
        with None Nil ne v' show thesis by (intro fallback [of v'])
      next
        case (Cons oldest rest)
        then have "oldest \<in> dom (noteMap va)" using safe by (auto simp: alloc_safe_def)
        then obtain i where m: "noteMap va oldest = Some i" by blast
        have i: "i < length (voices va)" using rng m by blast
        let ?va1 = "va\<lparr>noteMap := (noteMap va)(oldest := None), activeNotes := rest\<rparr>"
        have i1: "i < length (voices ?va1)" "voice_ok (voices ?va1 ! i)" using i oks by simp_all
        from trigger_voice_ok [OF i1, of "note" velocity] obtain v' where
          t: "trigger_voice ?va1 i note velocity = Some (?va1\<lparr>voices := (voices ?va1)[i := v']\<rparr>)"
          and v': "voice_on v'" by blast
        from on None sel noSel Cons m t
        have "va' = va\<lparr>voices := (voices va)[i := v'],
                 noteMap := ((noteMap va)(oldest := None))(note \<mapsto> i),
                 activeNotes := rest @ [note]\<rparr>"
          by (simp add: VoiceAllocator_NoteOn_def)
        with None Cons m i v' show thesis by (intro steal [of oldest rest i v'])
      qed
    qed
  qed
qed

lemma alloc_safeD:
  assumes "alloc_safe va"
  shows "list_all voice_ok (voices va)" "distinct (activeNotes va)"
    "set (activeNotes va) = dom (noteMap va)"
    "\<And>n i. noteMap va n = Some i \<Longrightarrow> i < length (voices va)"
  using assms by (simp_all add: alloc_safe_def)

lemma NoteOn_total:
  assumes safe: "alloc_safe va" and ne: "voices va \<noteq> []"
  shows "\<exists>va'. VoiceAllocator_NoteOn va note velocity = Some va'"
proof -
  note s = alloc_safeD [OF safe]
  have oks: "\<And>i. i < length (voices va) \<Longrightarrow> voice_ok (voices va ! i)"
    using s(1) by (simp add: list_all_length)
  have trig: "\<And>i (va1::VoiceAllocator). i < length (voices va) \<Longrightarrow> voices va1 = voices va \<Longrightarrow>
      \<exists>va2. trigger_voice va1 i note velocity = Some va2"
  proof -
    fix i and va1 :: VoiceAllocator assume i: "i < length (voices va)" and eq: "voices va1 = voices va"
    then have "i < length (voices va1)" "voice_ok (voices va1 ! i)" using oks by simp_all
    from trigger_voice_ok [OF this] show "\<exists>va2. trigger_voice va1 i note velocity = Some va2"
      by blast
  qed
  show ?thesis
  proof (cases "noteMap va note")
    case (Some i)
    with trig [OF s(4) [OF Some], of va] show ?thesis by (simp add: VoiceAllocator_NoteOn_def)
  next
    case None
    from first_inactive_total [OF s(1), of 0]
    obtain sel where sel: "first_inactive (voices va) 0 = Some sel" by blast
    show ?thesis
    proof (cases sel)
      case (Some i)
      from first_inactive_Some [of "voices va" 0 i] sel Some have "i < length (voices va)" by simp
      from trig [OF this, of va] obtain va2 where "trigger_voice va i note velocity = Some va2"
        by auto
      with None sel Some show ?thesis by (simp add: VoiceAllocator_NoteOn_def)
    next
      case noSel: None
      show ?thesis
      proof (cases "activeNotes va")
        case Nil
        from ne have "0 < length (voices va)" by simp
        from trig [OF this, of va] obtain va2 where "trigger_voice va 0 note velocity = Some va2"
          by auto
        with None sel noSel Nil ne show ?thesis by (simp add: VoiceAllocator_NoteOn_def)
      next
        case (Cons oldest rest)
        then have "oldest \<in> dom (noteMap va)" using s(3) by auto
        then obtain i where m: "noteMap va oldest = Some i" by blast
        let ?va1 = "va\<lparr>noteMap := (noteMap va)(oldest := None), activeNotes := rest\<rparr>"
        from trig [OF s(4) [OF m], of ?va1] obtain va2 where
          "trigger_voice ?va1 i note velocity = Some va2" by auto
        with None sel noSel Cons m show ?thesis by (simp add: VoiceAllocator_NoteOn_def)
      qed
    qed
  qed
qed

lemma voice_on_ok: "voice_on v \<Longrightarrow> voice_ok v"
  by (simp add: voice_on_def)

lemma NoteOn_safe:
  assumes safe: "alloc_safe va" and on: "VoiceAllocator_NoteOn va note velocity = Some va'"
  shows "alloc_safe va' \<and> length (voices va') = length (voices va)"
proof -
  note s = alloc_safeD [OF safe]
  have none: "noteMap va note = None \<Longrightarrow> note \<notin> set (activeNotes va)"
    using s(3) by auto
  from safe on show ?thesis
  proof (cases rule: NoteOn_cases)
    case (retrigger i v')
    with s show ?thesis by (simp add: alloc_safe_def list_all_update voice_on_ok)
  next
    case (allocate i v')
    with s none show ?thesis
      by (auto simp: alloc_safe_def list_all_update voice_on_ok)
  next
    case (steal oldest rest i v')
    with s none show ?thesis
      by (auto simp: alloc_safe_def list_all_update voice_on_ok split: if_splits)
  next
    case (fallback v')
    with s show ?thesis
      by (auto simp: alloc_safe_def list_all_update voice_on_ok split: if_splits)
  qed
qed

lemma NoteOn_inv:
  assumes inv: "alloc_inv va" and on: "VoiceAllocator_NoteOn va note velocity = Some va'"
  shows "alloc_inv va'"
proof -
  from inv have safe: "alloc_safe va" by (simp add: alloc_inv_def)
  note s = alloc_safeD [OF safe]
  from inv have inj: "inj_on (noteMap va) (dom (noteMap va))"
    and act: "\<And>n i. noteMap va n = Some i \<Longrightarrow> Voice_IsActive (voices va ! i) = Some True"
    by (simp_all add: alloc_inv_def)
  have safe': "alloc_safe va'" using NoteOn_safe [OF safe on] by simp
  have uniq: "\<And>n n' i. noteMap va n = Some i \<Longrightarrow> noteMap va n' = Some i \<Longrightarrow> n = n'"
    using inj by (auto simp: inj_on_def dom_def)
  from safe on show ?thesis
  proof (cases rule: NoteOn_cases)
    case (retrigger i v')
    have "\<And>n j. noteMap va n = Some j \<Longrightarrow> Voice_IsActive ((voices va)[i := v'] ! j) = Some True"
      using act retrigger(2,3) s(4) by (auto simp: nth_list_update voice_on_def)
    with safe' inj retrigger show ?thesis by (simp add: alloc_inv_def)
  next
    case (allocate i v')
    have ni: "\<And>n. noteMap va n \<noteq> Some i" using act allocate(3) by fastforce
    have "inj_on ((noteMap va)(note \<mapsto> i)) (insert note (dom (noteMap va)))"
      using uniq ni by (auto simp: inj_on_def dom_def)
    moreover have "\<And>n j. ((noteMap va)(note \<mapsto> i)) n = Some j \<Longrightarrow>
        Voice_IsActive ((voices va)[i := v'] ! j) = Some True"
      using act allocate(2,4) s(4) by (auto simp: nth_list_update voice_on_def split: if_splits)
    ultimately show ?thesis using safe' allocate by (simp add: alloc_inv_def)
  next
    case (steal oldest rest i v')
    let ?m = "((noteMap va)(oldest := None))(note \<mapsto> i)"
    have ni: "\<And>n. n \<noteq> oldest \<Longrightarrow> noteMap va n \<noteq> Some i" using uniq steal(3) by blast
    have "inj_on ?m (dom ?m)"
      using uniq ni by (auto simp: inj_on_def dom_def split: if_splits)
    moreover have "\<And>n j. ?m n = Some j \<Longrightarrow> Voice_IsActive ((voices va)[i := v'] ! j) = Some True"
      using act steal(4,5) s(4) by (auto simp: nth_list_update voice_on_def split: if_splits)
    ultimately show ?thesis using safe' steal by (simp add: alloc_inv_def)
  next
    case (fallback v')
    from fallback(2) s(3) have emp: "\<And>n. noteMap va n = None" by auto
    let ?m = "(noteMap va)(note \<mapsto> 0)"
    have "inj_on ?m (dom ?m)" using emp by (auto simp: inj_on_def dom_def split: if_splits)
    moreover have "\<And>n j. ?m n = Some j \<Longrightarrow> Voice_IsActive ((voices va)[0 := v'] ! j) = Some True"
      using emp fallback(3,4) by (auto simp: voice_on_def split: if_splits)
    ultimately show ?thesis using safe' fallback by (simp add: alloc_inv_def)
  qed
qed

lemma NoteOff_result:
  assumes safe: "alloc_safe va"
  shows "(noteMap va note = None \<and> VoiceAllocator_NoteOff va note = Some va) \<or>
         (\<exists>i v'. noteMap va note = Some i \<and> i < length (voices va) \<and> voice_ok v' \<and>
            Voice_IsActive v' = Voice_IsActive (voices va ! i) \<and>
            VoiceAllocator_NoteOff va note =
              Some (va\<lparr>voices := (voices va)[i := v'], noteMap := (noteMap va)(note := None),
                        activeNotes := remove1 note (activeNotes va)\<rparr>))"
proof (cases "noteMap va note")
  case None
  then show ?thesis by (simp add: VoiceAllocator_NoteOff_def)
next
  case (Some i)
  note s = alloc_safeD [OF safe]
  have i: "i < length (voices va)" using s(4) Some by blast
  then have "voice_ok (voices va ! i)" using s(1) by (simp add: list_all_length)
  from voice_ok_NoteOff [OF this] obtain v' where
    "Voice_NoteOff (voices va ! i) = Some v'" "voice_ok v'"
    "Voice_IsActive v' = Voice_IsActive (voices va ! i)" by blast
  with Some i show ?thesis by (auto simp: VoiceAllocator_NoteOff_def)
qed

lemma NoteOff_safe:
  assumes safe: "alloc_safe va"
  shows "\<exists>va'. VoiceAllocator_NoteOff va note = Some va' \<and> alloc_safe va' \<and>
           length (voices va') = length (voices va)"
proof -
  note s = alloc_safeD [OF safe]
  from NoteOff_result [OF safe, of "note"] show ?thesis
  proof (elim disjE exE conjE)
    assume "VoiceAllocator_NoteOff va note = Some va"
    with safe show ?thesis by simp
  next
    fix i v'
    assume a: "noteMap va note = Some i" "i < length (voices va)" "voice_ok v'"
      and r: "VoiceAllocator_NoteOff va note =
              Some (va\<lparr>voices := (voices va)[i := v'], noteMap := (noteMap va)(note := None),
                        activeNotes := remove1 note (activeNotes va)\<rparr>)"
    have "alloc_safe (va\<lparr>voices := (voices va)[i := v'], noteMap := (noteMap va)(note := None),
                        activeNotes := remove1 note (activeNotes va)\<rparr>)"
      using s a by (auto simp: alloc_safe_def list_all_update split: if_splits)
    with r show ?thesis by simp
  qed
qed

lemma NoteOff_inv:
  assumes inv: "alloc_inv va" and off: "VoiceAllocator_NoteOff va note = Some va'"
  shows "alloc_inv va'"
proof -
  from inv have safe: "alloc_safe va" by (simp add: alloc_inv_def)
  note s = alloc_safeD [OF safe]
  from inv have inj: "inj_on (noteMap va) (dom (noteMap va))"
    and act: "\<And>n i. noteMap va n = Some i \<Longrightarrow> Voice_IsActive (voices va ! i) = Some True"
    by (simp_all add: alloc_inv_def)
  have safe': "alloc_safe va'" using NoteOff_safe [OF safe, of "note"] off by simp
  from NoteOff_result [OF safe, of "note"] show ?thesis
  proof (elim disjE exE conjE)
    assume "VoiceAllocator_NoteOff va note = Some va"
    with off inv show ?thesis by simp
  next
    fix i v'
    assume a: "noteMap va note = Some i" "i < length (voices va)"
      "Voice_IsActive v' = Voice_IsActive (voices va ! i)"
      and r: "VoiceAllocator_NoteOff va note =
              Some (va\<lparr>voices := (voices va)[i := v'], noteMap := (noteMap va)(note := None),
                        activeNotes := remove1 note (activeNotes va)\<rparr>)"
    let ?m = "(noteMap va)(note := None)"
    have "inj_on ?m (dom ?m)" using inj by (auto simp: inj_on_def dom_def split: if_splits)
    moreover have "\<And>n j. ?m n = Some j \<Longrightarrow> Voice_IsActive ((voices va)[i := v'] ! j) = Some True"
      using act a s(4) by (auto simp: nth_list_update split: if_splits)
    ultimately show ?thesis using safe' r off by (auto simp: alloc_inv_def)
  qed
qed

lemma release_all_ok:
  "list_all voice_ok vs \<Longrightarrow>
   \<exists>vs'. release_all vs = Some vs' \<and> length vs' = length vs \<and> list_all voice_ok vs'"
proof (induction vs)
  case Nil
  show ?case by simp
next
  case (Cons v vs)
  then obtain vs' where vs': "release_all vs = Some vs'" "length vs' = length vs"
    "list_all voice_ok vs'" by auto
  from Cons.prems have "voice_ok v" by simp
  from voice_ok_NoteOff [OF this] obtain v' where "Voice_NoteOff v = Some v'" "voice_ok v'"
    by blast
  with vs' show ?case by simp
qed

lemma AllNotesOff_inv:
  assumes safe: "alloc_safe va"
  shows "\<exists>va'. VoiceAllocator_AllNotesOff va = Some va' \<and> alloc_inv va' \<and>
           length (voices va') = length (voices va)"
proof -
  from release_all_ok [OF alloc_safeD(1) [OF safe]] obtain vs' where
    "release_all (voices va) = Some vs'" "length vs' = length (voices va)" "list_all voice_ok vs'"
    by blast
  then show ?thesis
    by (simp add: VoiceAllocator_AllNotesOff_def alloc_inv_def alloc_safe_def)
qed

lemma alloc_inv_safe: "alloc_inv va \<Longrightarrow> alloc_safe va"
  by (simp add: alloc_inv_def)

lemma apply_call_inv:
  assumes "alloc_inv va" "apply_call va c = Some va'"
  shows "alloc_inv va' \<and> length (voices va') = length (voices va)"
proof (cases c)
  case (NoteOn n vel)
  with assms NoteOn_inv [of va n vel va'] NoteOn_safe [of va n vel va'] show ?thesis
    by (simp add: alloc_inv_safe)
next
  case (NoteOff n)
  with assms NoteOff_inv [of va n va'] NoteOff_safe [of va n] show ?thesis
    by (auto simp: alloc_inv_safe)
next
  case AllNotesOff
  with assms AllNotesOff_inv [of va] show ?thesis by (auto simp: alloc_inv_safe)
qed

lemma apply_call_total:
  assumes "alloc_inv va" "voices va \<noteq> []"
  shows "\<exists>va'. apply_call va c = Some va'"
proof (cases c)
  case (NoteOn n vel)
  with NoteOn_total [OF alloc_inv_safe [OF assms(1)] assms(2), of n vel] show ?thesis by simp
next
  case (NoteOff n)
  with NoteOff_safe [OF alloc_inv_safe [OF assms(1)], of n] show ?thesis by auto
next
  case AllNotesOff
  with AllNotesOff_inv [OF alloc_inv_safe [OF assms(1)]] show ?thesis by auto
qed

lemma run_calls_inv:
  "alloc_inv va \<Longrightarrow> run_calls va cs = Some va' \<Longrightarrow>
   alloc_inv va' \<and> length (voices va') = length (voices va)"
proof (induction cs arbitrary: va)
  case Nil
  then show ?case by simp
next
  case (Cons c cs)
  from Cons.prems(2) obtain va1 where c: "apply_call va c = Some va1"
    and r: "run_calls va1 cs = Some va'" by (auto split: Option.bind_splits)
  from apply_call_inv [OF Cons.prems(1) c] Cons.IH [OF _ r] show ?case by simp
qed

lemma run_calls_total:
  "alloc_inv va \<Longrightarrow> voices va \<noteq> [] \<Longrightarrow> \<exists>va'. run_calls va cs = Some va'"
proof (induction cs arbitrary: va)
  case Nil
  show ?case by simp
next
  case (Cons c cs)
  from apply_call_total [OF Cons.prems] obtain va1 where c: "apply_call va c = Some va1" by blast
  from apply_call_inv [OF Cons.prems(1) c] Cons.prems(2)
  have "alloc_inv va1" "voices va1 \<noteq> []" by auto
  from Cons.IH [OF this] c show ?case by simp
qed

lemma NewVoiceAllocator_inv:
  "\<exists>va. NewVoiceAllocator inst rate n = Some va \<and> alloc_inv va \<and> length (voices va) = n \<and>
        noteMap va = Map.empty \<and> activeNotes va = [] \<and>
        list_all (\<lambda>v. Voice_IsActive v = Some False) (voices va)"
proof -
  from pool_voice_ok [of inst rate] obtain v where
    "pool_voice inst rate = Some v" "voice_ok v" "Voice_IsActive v = Some False" by blast
  then show ?thesis
    by (simp add: NewVoiceAllocator_def alloc_inv_def alloc_safe_def list_all_length)
qed

lemma alloc_inv_length:
  assumes "alloc_inv va"
  shows "length (activeNotes va) \<le> length (voices va)"
proof -
  note s = alloc_safeD [OF alloc_inv_safe [OF assms]]
  from assms have inj: "inj_on (noteMap va) (dom (noteMap va))" by (simp add: alloc_inv_def)
  let ?f = "\<lambda>n. the (noteMap va n)"
  have "inj_on ?f (dom (noteMap va))"
    using inj by (auto simp: inj_on_def dom_def)
  moreover have "?f ` dom (noteMap va) \<subseteq> {..<length (voices va)}"
    using s(4) by auto
  ultimately have "card (dom (noteMap va)) \<le> card {..<length (voices va)}"
    by (intro card_inj_on_le) auto
  moreover have "card (dom (noteMap va)) = length (activeNotes va)"
    using s(2,3) distinct_card by metis
  ultimately show ?thesis by simp
qed

lemma first_inactive_at:
  "k < length vs \<Longrightarrow> \<forall>j<k. Voice_IsActive (vs ! j) = Some True \<Longrightarrow>
   Voice_IsActive (vs ! k) = Some False \<Longrightarrow> first_inactive vs m = Some (Some (m + k))"
proof (induction vs arbitrary: k m)
  case Nil
  then show ?case by simp
next
  case (Cons v vs)
  show ?case
  proof (cases k)
    case 0
    with Cons.prems show ?thesis by simp
  next
    case (Suc k')
    with Cons.prems have v: "Voice_IsActive v = Some True" by auto
    from Suc Cons.prems have "k' < length vs" "\<forall>j<k'. Voice_IsActive (vs ! j) = Some True"
      "Voice_IsActive (vs ! k') = Some False" by auto
    from Cons.IH [OF this, of "Suc m"] v Suc show ?thesis by simp
  qed
qed

lemma first_inactive_all:
  "list_all (\<lambda>v. Voice_IsActive v = Some True) vs \<Longrightarrow> first_inactive vs m = Some None"
  by (induction vs arbitrary: m) simp_all

lemma NoteOn_fill:
  assumes safe: "alloc_safe va" and un: "noteMap va note = None"
    and k: "k < length (voices va)"
    and before: "\<forall>j<k. Voice_IsActive (voices va ! j) = Some True"
    and at: "Voice_IsActive (voices va ! k) = Some False"
  shows "\<exists>va'. VoiceAllocator_NoteOn va note velocity = Some va' \<and> alloc_safe va' \<and>
           length (voices va') = length (voices va) \<and>
           activeNotes va' = activeNotes va @ [note] \<and>
           noteMap va' = (noteMap va)(note \<mapsto> k) \<and>
           (\<forall>j<length (voices va). Voice_IsActive (voices va' ! j) =
              (if j = k then Some True else Voice_IsActive (voices va ! j)))"
proof -
  have ok: "voice_ok (voices va ! k)"
    using alloc_safeD(1) [OF safe] k by (simp add: list_all_length)
  from trigger_voice_ok [OF k ok, of "note" velocity] obtain v' where
    t: "trigger_voice va k note velocity = Some (va\<lparr>voices := (voices va)[k := v']\<rparr>)"
    and v': "voice_on v'" by blast
  from first_inactive_at [OF k before at, of 0]
  have sel: "first_inactive (voices va) 0 = Some (Some k)" by simp
  let ?va' = "va\<lparr>voices := (voices va)[k := v'], noteMap := (noteMap va)(note \<mapsto> k),
                 activeNotes := activeNotes va @ [note]\<rparr>"
  have on: "VoiceAllocator_NoteOn va note velocity = Some ?va'"
    using un sel t by (simp add: VoiceAllocator_NoteOn_def)
  have "alloc_safe ?va'" using NoteOn_safe [OF safe on] by simp
  moreover have "\<forall>j<length (voices va). Voice_IsActive (voices ?va' ! j) =
              (if j = k then Some True else Voice_IsActive (voices va ! j))"
    using v' by (simp add: nth_list_update voice_on_def)
  ultimately show ?thesis using on by (intro exI [of _ ?va']) simp
qed

lemma NoteOn_fill_next:
  assumes safe: "alloc_safe va" and un: "noteMap va note = None"
    and k: "k < length (voices va)"
    and pat: "\<forall>j<length (voices va). Voice_IsActive (voices va ! j) = Some (j < k)"
  shows "\<exists>va'. VoiceAllocator_NoteOn va note velocity = Some va' \<and> alloc_safe va' \<and>
           length (voices va') = length (voices va) \<and>
           activeNotes va' = activeNotes va @ [note] \<and>
           noteMap va' = (noteMap va)(note \<mapsto> k) \<and>
           (\<forall>j<length (voices va'). Voice_IsActive (voices va' ! j) = Some (j < k + 1))"
proof -
  have before: "\<forall>j<k. Voice_IsActive (voices va ! j) = Some True" using pat k by simp
  have at: "Voice_IsActive (voices va ! k) = Some False" using pat k by simp
  from NoteOn_fill [OF safe un k before at, of velocity] obtain va' where
    va': "VoiceAllocator_NoteOn va note velocity = Some va'" "alloc_safe va'"
      "length (voices va') = length (voices va)" "activeNotes va' = activeNotes va @ [note]"
      "noteMap va' = (noteMap va)(note \<mapsto> k)"
    and act: "\<forall>j<length (voices va). Voice_IsActive (voices va' ! j) =
              (if j = k then Some True else Voice_IsActive (voices va ! j))"
    by blast
  have "\<forall>j<length (voices va'). Voice_IsActive (voices va' ! j) = Some (j < k + 1)"
  proof (intro allI impI)
    fix j assume "j < length (voices va')"
    then have j: "j < length (voices va)" using va'(3) by simp
    with act pat show "Voice_IsActive (voices va' ! j) = Some (j < k + 1)"
      by (cases "j = k") auto
  qed
  with va' show ?thesis by blast
qed

lemma NoteOn_steal:
  assumes safe: "alloc_safe va" and un: "noteMap va note = None"
    and full: "list_all (\<lambda>v. Voice_IsActive v = Some True) (voices va)"
    and lst: "activeNotes va = oldest # rest"
  shows "\<exists>va' i. noteMap va oldest = Some i \<and>
           VoiceAllocator_NoteOn va note velocity = Some va' \<and> alloc_safe va' \<and>
           length (voices va') = length (voices va) \<and>
           activeNotes va' = rest @ [note] \<and>
           noteMap va' = ((noteMap va)(oldest := None))(note \<mapsto> i)"
proof -
  note s = alloc_safeD [OF safe]
  from lst s(3) have "oldest \<in> dom (noteMap va)" by auto
  then obtain i where m: "noteMap va oldest = Some i" by blast
  have i: "i < length (voices va)" using s(4) m by blast
  let ?va1 = "va\<lparr>noteMap := (noteMap va)(oldest := None), activeNotes := rest\<rparr>"
  have i1: "i < length (voices ?va1)" "voice_ok (voices ?va1 ! i)"
    using i s(1) by (simp_all add: list_all_length)
  from trigger_voice_ok [OF i1, of "note" velocity] obtain v' where
    t: "trigger_voice ?va1 i note velocity = Some (?va1\<lparr>voices := (voices ?va1)[i := v']\<rparr>)"
    by blast
  let ?va' = "va\<lparr>voices := (voices va)[i := v'],
                 noteMap := ((noteMap va)(oldest := None))(note \<mapsto> i),
                 activeNotes := rest @ [note]\<rparr>"
  have on: "VoiceAllocator_NoteOn va note velocity = Some ?va'"
    using un first_inactive_all [OF full, of 0] lst m t
    by (simp add: VoiceAllocator_NoteOn_def)
  have "alloc_safe ?va'" using NoteOn_safe [OF safe on] by simp
  then show ?thesis using on m by (intro exI [of _ ?va'] exI [of _ i]) simp
qed

section \<open>Voice allocator: the claims\<close>

text \<open>
  C4. A new allocator with a pool of 4 voices, any instrument and any sample rate, takes
  five \<open>NoteOn\<close> calls with five distinct notes (any velocities, nothing in between).
  After four calls the active notes are the four notes in order and the first note has
  voice 0. After the fifth call the list has exactly 4 entries, the first note is gone
  from the list and from the map, the fifth note has its voice, and the other four
  notes are listed oldest first.
\<close>

theorem fifth_note_steals_oldest:
  assumes d: "distinct [n1, n2, n3, n4, n5]"
  shows "\<exists>va0 va4 va.
     NewVoiceAllocator inst rate 4 = Some va0 \<and>
     run_calls va0 [NoteOn n1 v1, NoteOn n2 v2, NoteOn n3 v3, NoteOn n4 v4] = Some va4 \<and>
     VoiceAllocator_NoteOn va4 n5 v5 = Some va \<and>
     GetActiveNotes va4 = [n1, n2, n3, n4] \<and> noteMap va4 n1 = Some 0 \<and>
     GetActiveNotes va = [n2, n3, n4, n5] \<and> GetActiveVoiceCount va = 4 \<and>
     noteMap va n1 = None \<and> noteMap va n5 = Some 0 \<and>
     dom (noteMap va) = {n2, n3, n4, n5}"
proof -
  from d have ne: "n1 \<noteq> n2" "n1 \<noteq> n3" "n1 \<noteq> n4" "n1 \<noteq> n5" "n2 \<noteq> n3" "n2 \<noteq> n4"
    "n2 \<noteq> n5" "n3 \<noteq> n4" "n3 \<noteq> n5" "n4 \<noteq> n5" "n2 \<noteq> n1" "n3 \<noteq> n1" "n4 \<noteq> n1"
    "n5 \<noteq> n1" "n3 \<noteq> n2" "n4 \<noteq> n2" "n5 \<noteq> n2" "n4 \<noteq> n3" "n5 \<noteq> n3" "n5 \<noteq> n4"
    by auto
  from NewVoiceAllocator_inv [of inst rate 4] obtain va0 where
    new: "NewVoiceAllocator inst rate 4 = Some va0" and s0: "alloc_safe va0"
    and l0: "length (voices va0) = 4" and m0: "noteMap va0 = Map.empty"
    and a0: "activeNotes va0 = []"
    and i0: "\<forall>j<length (voices va0). Voice_IsActive (voices va0 ! j) = Some (j < 0)"
    by (auto simp: alloc_inv_safe list_all_length)
  have un1: "noteMap va0 n1 = None" by (simp add: m0)
  have k0: "0 < length (voices va0)" by (simp add: l0)
  from NoteOn_fill_next [OF s0 un1 k0 i0, of v1] obtain va1 where
    on1: "VoiceAllocator_NoteOn va0 n1 v1 = Some va1" and s1: "alloc_safe va1"
    and l1': "length (voices va1) = length (voices va0)"
    and a1': "activeNotes va1 = activeNotes va0 @ [n1]"
    and m1': "noteMap va1 = (noteMap va0)(n1 \<mapsto> 0)"
    and i1': "\<forall>j<length (voices va1). Voice_IsActive (voices va1 ! j) = Some (j < 0 + 1)"
    by blast
  have l1: "length (voices va1) = 4" and a1: "activeNotes va1 = [n1]"
    and m1: "noteMap va1 = [n1 \<mapsto> 0]"
    and i1: "\<forall>j<length (voices va1). Voice_IsActive (voices va1 ! j) = Some (j < 1)"
    using l1' a1' m1' i1' l0 a0 m0 by simp_all
  from ne have un2: "noteMap va1 n2 = None" by (simp add: m1)
  have k1: "1 < length (voices va1)" by (simp add: l1)
  from NoteOn_fill_next [OF s1 un2 k1 i1, of v2] obtain va2 where
    on2: "VoiceAllocator_NoteOn va1 n2 v2 = Some va2" and s2: "alloc_safe va2"
    and l2': "length (voices va2) = length (voices va1)"
    and a2': "activeNotes va2 = activeNotes va1 @ [n2]"
    and m2': "noteMap va2 = (noteMap va1)(n2 \<mapsto> 1)"
    and i2': "\<forall>j<length (voices va2). Voice_IsActive (voices va2 ! j) = Some (j < 1 + 1)"
    by blast
  have l2: "length (voices va2) = 4" and a2: "activeNotes va2 = [n1, n2]"
    and m2: "noteMap va2 = [n1 \<mapsto> 0, n2 \<mapsto> 1]"
    and i2: "\<forall>j<length (voices va2). Voice_IsActive (voices va2 ! j) = Some (j < 2)"
    using l2' a2' m2' i2' l1 a1 m1 by (simp_all add: eval_nat_numeral)
  from ne have un3: "noteMap va2 n3 = None" by (simp add: m2)
  have k2: "2 < length (voices va2)" by (simp add: l2)
  from NoteOn_fill_next [OF s2 un3 k2 i2, of v3] obtain va3 where
    on3: "VoiceAllocator_NoteOn va2 n3 v3 = Some va3" and s3: "alloc_safe va3"
    and l3': "length (voices va3) = length (voices va2)"
    and a3': "activeNotes va3 = activeNotes va2 @ [n3]"
    and m3': "noteMap va3 = (noteMap va2)(n3 \<mapsto> 2)"
    and i3': "\<forall>j<length (voices va3). Voice_IsActive (voices va3 ! j) = Some (j < 2 + 1)"
    by blast
  have l3: "length (voices va3) = 4" and a3: "activeNotes va3 = [n1, n2, n3]"
    and m3: "noteMap va3 = [n1 \<mapsto> 0, n2 \<mapsto> 1, n3 \<mapsto> 2]"
    and i3: "\<forall>j<length (voices va3). Voice_IsActive (voices va3 ! j) = Some (j < 3)"
    using l3' a3' m3' i3' l2 a2 m2 by (simp_all add: eval_nat_numeral)
  from ne have un4: "noteMap va3 n4 = None" by (simp add: m3)
  have k3: "3 < length (voices va3)" by (simp add: l3)
  from NoteOn_fill_next [OF s3 un4 k3 i3, of v4] obtain va4 where
    on4: "VoiceAllocator_NoteOn va3 n4 v4 = Some va4" and s4: "alloc_safe va4"
    and l4': "length (voices va4) = length (voices va3)"
    and a4': "activeNotes va4 = activeNotes va3 @ [n4]"
    and m4': "noteMap va4 = (noteMap va3)(n4 \<mapsto> 3)"
    and i4': "\<forall>j<length (voices va4). Voice_IsActive (voices va4 ! j) = Some (j < 3 + 1)"
    by blast
  have l4: "length (voices va4) = 4" and a4: "activeNotes va4 = [n1, n2, n3, n4]"
    and m4: "noteMap va4 = [n1 \<mapsto> 0, n2 \<mapsto> 1, n3 \<mapsto> 2, n4 \<mapsto> 3]"
    using l4' a4' m4' l3 a3 m3 by simp_all
  have i4: "\<forall>j<4. Voice_IsActive (voices va4 ! j) = Some True"
    using i4' l4 by simp
  from ne have un5: "noteMap va4 n5 = None" by (simp add: m4)
  have full: "list_all (\<lambda>v. Voice_IsActive v = Some True) (voices va4)"
    using i4 l4 by (simp add: list_all_length)
  from ne have m41: "noteMap va4 n1 = Some 0" by (simp add: m4)
  from NoteOn_steal [OF s4 un5 full a4, of v5] m41 obtain va where
    on5: "VoiceAllocator_NoteOn va4 n5 v5 = Some va"
    and a5: "activeNotes va = [n2, n3, n4, n5]"
    and m5: "noteMap va = ((noteMap va4)(n1 := None))(n5 \<mapsto> 0)"
    by auto
  have run4: "run_calls va0 [NoteOn n1 v1, NoteOn n2 v2, NoteOn n3 v3, NoteOn n4 v4] = Some va4"
    using on1 on2 on3 on4 by simp
  have dom5: "dom (noteMap va) = {n2, n3, n4, n5}"
    using ne by (auto simp: m5 m4 split: if_splits)
  have "noteMap va n1 = None" "noteMap va n5 = Some 0" using ne by (simp_all add: m5)
  with new run4 on5 a4 m41 a5 dom5 show ?thesis
    by (simp add: GetActiveNotes_def GetActiveVoiceCount_def)
qed

theorem fifth_note_steals_oldest_witness:
  "distinct [60, 64, 67, 72, 76 :: int] \<and>
   (\<exists>va0 va4 va.
     NewVoiceAllocator defaultInst 44100 4 = Some va0 \<and>
     run_calls va0 [NoteOn 60 1, NoteOn 64 1, NoteOn 67 1, NoteOn 72 1] = Some va4 \<and>
     VoiceAllocator_NoteOn va4 76 1 = Some va \<and>
     GetActiveNotes va4 = [60, 64, 67, 72] \<and> noteMap va4 60 = Some 0 \<and>
     GetActiveNotes va = [64, 67, 72, 76] \<and> GetActiveVoiceCount va = 4 \<and>
     noteMap va 60 = None \<and> noteMap va 76 = Some 0 \<and>
     dom (noteMap va) = {64, 67, 72, 76})"
proof -
  have d: "distinct [60, 64, 67, 72, 76 :: int]" by simp
  from fifth_note_steals_oldest [OF d, of defaultInst 44100 1 1 1 1 1] d show ?thesis by blast
qed

text \<open>
  C9. Start from a new allocator (any instrument, sample rate and pool size \<open>n\<close>) and make
  any finite sequence of \<open>NoteOn\<close>, \<open>NoteOff\<close> and \<open>AllNotesOff\<close> calls. With a pool that
  is not empty no call panics. In every state reached the active-note list has no
  duplicates, its elements are the keys of the note map, the map is injective, every
  mapped voice is a voice of the pool that reports active, and the list is no longer
  than the pool.
\<close>

theorem allocator_invariant:
  "\<exists>va0. NewVoiceAllocator inst rate n = Some va0 \<and>
     (0 < n \<longrightarrow> run_calls va0 cs \<noteq> None) \<and>
     (\<forall>va. run_calls va0 cs = Some va \<longrightarrow>
        distinct (activeNotes va) \<and> set (activeNotes va) = dom (noteMap va) \<and>
        inj_on (noteMap va) (dom (noteMap va)) \<and>
        length (voices va) = n \<and> length (activeNotes va) \<le> n \<and>
        (\<forall>k i. noteMap va k = Some i \<longrightarrow>
           i < n \<and> Voice_IsActive (voices va ! i) = Some True))"
proof -
  from NewVoiceAllocator_inv [of inst rate n] obtain va0 where
    new: "NewVoiceAllocator inst rate n = Some va0" and inv0: "alloc_inv va0"
    and l0: "length (voices va0) = n" by blast
  have total: "0 < n \<longrightarrow> run_calls va0 cs \<noteq> None"
    using run_calls_total [OF inv0, of cs] l0 by auto
  have "distinct (activeNotes va) \<and> set (activeNotes va) = dom (noteMap va) \<and>
        inj_on (noteMap va) (dom (noteMap va)) \<and>
        length (voices va) = n \<and> length (activeNotes va) \<le> n \<and>
        (\<forall>k i. noteMap va k = Some i \<longrightarrow>
           i < n \<and> Voice_IsActive (voices va ! i) = Some True)"
    if run: "run_calls va0 cs = Some va" for va
  proof -
    from run_calls_inv [OF inv0 run] l0 have inv: "alloc_inv va" and l: "length (voices va) = n"
      by simp_all
    note s = alloc_safeD [OF alloc_inv_safe [OF inv]]
    from inv have "inj_on (noteMap va) (dom (noteMap va))"
      "\<And>k i. noteMap va k = Some i \<Longrightarrow> Voice_IsActive (voices va ! i) = Some True"
      by (simp_all add: alloc_inv_def)
    with s alloc_inv_length [OF inv] l show ?thesis by auto
  qed
  with new total show ?thesis by blast
qed

theorem allocator_invariant_witness:
  "(0::nat) < 4 \<and>
   (\<exists>va0 va. NewVoiceAllocator defaultInst 44100 4 = Some va0 \<and>
      run_calls va0 calls_example = Some va \<and>
      distinct (activeNotes va) \<and> set (activeNotes va) = dom (noteMap va) \<and>
      inj_on (noteMap va) (dom (noteMap va)) \<and>
      length (voices va) = 4 \<and> length (activeNotes va) \<le> 4 \<and>
      (\<forall>k i. noteMap va k = Some i \<longrightarrow>
           i < 4 \<and> Voice_IsActive (voices va ! i) = Some True))"
proof -
  from allocator_invariant [of defaultInst 44100 4 calls_example] obtain va0 where
    all: "NewVoiceAllocator defaultInst 44100 4 = Some va0 \<and>
     (0 < (4::nat) \<longrightarrow> run_calls va0 calls_example \<noteq> None) \<and>
     (\<forall>va. run_calls va0 calls_example = Some va \<longrightarrow>
        distinct (activeNotes va) \<and> set (activeNotes va) = dom (noteMap va) \<and>
        inj_on (noteMap va) (dom (noteMap va)) \<and>
        length (voices va) = 4 \<and> length (activeNotes va) \<le> 4 \<and>
        (\<forall>k i. noteMap va k = Some i \<longrightarrow>
           i < 4 \<and> Voice_IsActive (voices va ! i) = Some True))" ..
  note new = all [THEN conjunct1]
  note total = all [THEN conjunct2, THEN conjunct1]
  note inv = all [THEN conjunct2, THEN conjunct2]
  from total obtain va where run: "run_calls va0 calls_example = Some va" by auto
  note props = inv [rule_format, OF run]
  have "\<exists>va0 va. NewVoiceAllocator defaultInst 44100 4 = Some va0 \<and>
      run_calls va0 calls_example = Some va \<and>
      distinct (activeNotes va) \<and> set (activeNotes va) = dom (noteMap va) \<and>
      inj_on (noteMap va) (dom (noteMap va)) \<and>
      length (voices va) = 4 \<and> length (activeNotes va) \<le> 4 \<and>
      (\<forall>k i. noteMap va k = Some i \<longrightarrow>
           i < 4 \<and> Voice_IsActive (voices va ! i) = Some True)"
    using new run props by (intro exI [of _ va0] exI [of _ va] conjI) simp_all
  then show ?thesis by simp
qed

section \<open>Voice allocator: the mix\<close>

lemma mix_voices_sum:
  "mix_voices vs s c = Some (t, c', vs') \<Longrightarrow>
   t = s + sum_list (map voice_output (filter (\<lambda>v. Voice_IsActive v = Some True) vs)) \<and>
   c' = c + int (length (filter (\<lambda>v. Voice_IsActive v = Some True) vs)) \<and>
   length vs' = length vs"
proof (induction vs arbitrary: s c t c' vs')
  case Nil
  then show ?case by simp
next
  case (Cons v vs)
  from Cons.prems obtain a where a: "Voice_IsActive v = Some a"
    by (cases "Voice_IsActive v") simp_all
  show ?case
  proof (cases a)
    case True
    with a Cons.prems obtain x v' where n: "Voice_Next v = Some (x, v')"
      by (cases "Voice_Next v") auto
    with a True Cons.prems obtain ws where
      r: "mix_voices vs (s + x) (c + 1) = Some (t, c', ws)" and vs': "vs' = v' # ws"
      by (cases "mix_voices vs (s + x) (c + 1)") auto
    from Cons.IH [OF r] a True n vs' show ?thesis by (simp add: voice_output_def)
  next
    case False
    with a Cons.prems obtain ws where
      r: "mix_voices vs s c = Some (t, c', ws)" and vs': "vs' = v # ws"
      by (cases "mix_voices vs s c") auto
    from Cons.IH [OF r] a False vs' show ?thesis by simp
  qed
qed

lemma mix_voices_total:
  "list_all voice_ok vs \<Longrightarrow>
   \<exists>t c' vs'. mix_voices vs s c = Some (t, c', vs') \<and> list_all voice_ok vs'"
proof (induction vs arbitrary: s c)
  case Nil
  show ?case by simp
next
  case (Cons v vs)
  then have v: "voice_ok v" and vs: "list_all voice_ok vs" by simp_all
  from voice_ok_IsActive [OF v] obtain a where a: "Voice_IsActive v = Some a" by blast
  show ?case
  proof (cases a)
    case True
    from voice_ok_Next [OF v] obtain x v' where n: "Voice_Next v = Some (x, v')" "voice_ok v'"
      by blast
    from Cons.IH [OF vs, of "s + x" "c + 1"] obtain t c' ws where
      "mix_voices vs (s + x) (c + 1) = Some (t, c', ws)" "list_all voice_ok ws" by blast
    with a True n show ?thesis by simp
  next
    case False
    from Cons.IH [OF vs, of s c] obtain t c' ws where
      "mix_voices vs s c = Some (t, c', ws)" "list_all voice_ok ws" by blast
    with a False v show ?thesis by simp
  qed
qed


lemma square_voice_on_eq:
  "square_voice_on =
     \<lparr>oscillator = Some \<lparr>waveType = Square, osc_frequency = NoteToFrequency 57, osc_phase = 0,
                          osc_sampleRate = 4\<rparr>,
      envelope = Some \<lparr>attackTime = 1/100, decayTime = 1/10, sustainLevel = 6/10,
                        releaseTime = 2/10, stage = Attack, level = 0, env_sampleRate = 4,
                        sampleCount = 0\<rparr>,
      fmInstrument = None, useFM = False, v_volume = 1/2, active = True, v_sampleRate = 4\<rparr>"
  by (simp add: square_voice_on_def square_voice_def Voice_NoteOn_def NewVoice_def fm_path_def
      NewOscillator_def NewEnvelope_def Oscillator_SetFrequency_def Envelope_Trigger_def)



section \<open>Player: rows\<close>

lemma go_index_Some: "go_index xs i = Some x \<Longrightarrow> 0 \<le> i \<and> i < int (length xs) \<and> x = xs ! nat i"
  by (auto simp: go_index_def split: if_splits)

lemma process_event_rest: "Note ev < 0 \<Longrightarrow> Note ev \<noteq> - 2 \<Longrightarrow> process_event va ev = Some va"
  by (simp add: process_event_def)

lemma process_channel_rest:
  "go_index c row = Some ev \<Longrightarrow> Note ev < 0 \<Longrightarrow> Note ev \<noteq> - 2 \<Longrightarrow>
   process_channel c va row = Some va"
  using go_index_Some [of c row ev] by (simp add: process_channel_def process_event_rest)

lemma process_channels_nth:
  "process_channels cs vas row = Some vas' \<Longrightarrow>
   length vas' = length vas \<and>
   (\<forall>ch<length vas. if ch < length cs
      then process_channel (cs ! ch) (vas ! ch) row = Some (vas' ! ch)
      else vas' ! ch = vas ! ch)"
proof (induction cs vas row arbitrary: vas' rule: process_channels.induct)
  case (1 c cs va vas row)
  from "1.prems" obtain va' ws where c: "process_channel c va row = Some va'"
    and r: "process_channels cs vas row = Some ws" and v: "vas' = va' # ws"
    by (auto split: Option.bind_splits)
  from "1.IH" [OF c r] c v show ?case by (auto simp: nth_Cons')
qed simp_all

lemma processRow_rest:
  assumes pr: "Player_processRow p = Some p'" and ch: "ch < length (VoiceAllocators p)"
    and ev: "row_event p ch = Some ev" and rest: "Note ev < 0" "Note ev \<noteq> - 2"
  shows "VoiceAllocators p' ! ch = VoiceAllocators p ! ch"
    and "length (VoiceAllocators p') = length (VoiceAllocators p)"
proof -
  from ev obtain patternIdx pattern where
    pi: "go_index (Sequence (p_module p)) (currentPos p) = Some patternIdx"
    and pat: "go_index (Patterns (p_module p)) patternIdx = Some pattern"
    and c: "ch < length (Channels pattern)"
    and e: "go_index (Channels pattern ! ch) (currentRow p) = Some ev"
    by (auto simp: row_event_def split: Option.bind_splits if_splits)
  from go_index_Some [OF pi] go_index_Some [OF pat]
  have b: "\<not> currentPos p \<ge> int (length (Sequence (p_module p)))"
    "\<not> patternIdx \<ge> int (length (Patterns (p_module p)))" by simp_all
  from pr pi pat b obtain vas where
    ps: "process_channels (Channels pattern) (VoiceAllocators p) (currentRow p) = Some vas"
    and p': "p' = p\<lparr>VoiceAllocators := vas\<rparr>"
    by (auto simp: Player_processRow_def Let_def split: Option.bind_splits)
  from process_channels_nth [OF ps] ch c
  have l: "length vas = length (VoiceAllocators p)"
    and n: "process_channel (Channels pattern ! ch) (VoiceAllocators p ! ch) (currentRow p) = Some (vas ! ch)"
    by auto
  from n process_channel_rest [OF e rest] show "VoiceAllocators p' ! ch = VoiceAllocators p ! ch"
    by (simp add: p')
  from l show "length (VoiceAllocators p') = length (VoiceAllocators p)" by (simp add: p')
qed

section \<open>Player: no panic\<close>

lemma NoteOn_live:
  assumes "alloc_live va"
  shows "\<exists>va'. VoiceAllocator_NoteOn va n vel = Some va' \<and> alloc_live va'"
proof -
  from assms have s: "alloc_safe va" and ne: "voices va \<noteq> []" by (simp_all add: alloc_live_def)
  from NoteOn_total [OF s ne, of n vel] obtain va' where
    on: "VoiceAllocator_NoteOn va n vel = Some va'" by blast
  from NoteOn_safe [OF s on] ne on show ?thesis by (auto simp: alloc_live_def)
qed

lemma chord_on_live:
  "alloc_live va \<Longrightarrow> \<exists>va'. chord_on va cs vel = Some va' \<and> alloc_live va'"
proof (induction cs arbitrary: va)
  case Nil
  then show ?case by simp
next
  case (Cons c cs)
  show ?case
  proof (cases "c \<ge> 0")
    case True
    from NoteOn_live [OF Cons.prems, of c vel] obtain va1 where
      on: "VoiceAllocator_NoteOn va c vel = Some va1" and l: "alloc_live va1" by blast
    from Cons.IH [OF l] on True show ?thesis by simp
  next
    case False
    with Cons.IH [OF Cons.prems] show ?thesis by simp
  qed
qed

lemma AllNotesOff_live:
  assumes "alloc_live va"
  shows "\<exists>va'. VoiceAllocator_AllNotesOff va = Some va' \<and> alloc_live va'"
proof -
  from assms have s: "alloc_safe va" and ne: "voices va \<noteq> []" by (simp_all add: alloc_live_def)
  from AllNotesOff_inv [OF s] ne show ?thesis
    by (auto simp: alloc_live_def alloc_inv_safe)
qed

lemma process_event_live:
  assumes "alloc_live va"
  shows "\<exists>va'. process_event va ev = Some va' \<and> alloc_live va'"
proof (cases "Note ev \<ge> 0")
  case True
  let ?vel = "if Volume ev = 0 then 1 else Volume ev"
  from NoteOn_live [OF assms, of "Note ev" ?vel] obtain va1 where
    on: "VoiceAllocator_NoteOn va (Note ev) ?vel = Some va1" and l: "alloc_live va1" by blast
  from chord_on_live [OF l, of "Chord ev" ?vel] on True show ?thesis
    by (simp add: process_event_def Let_def)
next
  case False
  with AllNotesOff_live [OF assms] assms show ?thesis
    by (auto simp: process_event_def)
qed

lemma process_channel_live:
  assumes "alloc_live va" "0 \<le> row"
  shows "\<exists>va'. process_channel c va row = Some va' \<and> alloc_live va'"
proof (cases "row < int (length c)")
  case True
  with assms(2) have "go_index c row = Some (c ! nat row)" by (simp add: go_index_def)
  with True process_event_live [OF assms(1), of "c ! nat row"] show ?thesis
    by (simp add: process_channel_def)
next
  case False
  with assms(1) show ?thesis by (simp add: process_channel_def)
qed

lemma process_channels_live:
  "list_all alloc_live vas \<Longrightarrow> 0 \<le> row \<Longrightarrow>
   \<exists>vas'. process_channels cs vas row = Some vas' \<and> list_all alloc_live vas'"
proof (induction cs vas row rule: process_channels.induct)
  case (1 c cs va vas row)
  then have va: "alloc_live va" and vas: "list_all alloc_live vas" by simp_all
  from process_channel_live [OF va "1.prems"(2), of c] obtain va' where
    c: "process_channel c va row = Some va'" and l: "alloc_live va'" by blast
  from "1.IH" [OF c vas "1.prems"(2)] obtain ws where
    "process_channels cs vas row = Some ws" "list_all alloc_live ws" by blast
  with c l show ?case by simp
qed simp_all

lemma processRow_safe:
  assumes "player_safe p"
  shows "\<exists>vas. Player_processRow p = Some (p\<lparr>VoiceAllocators := vas\<rparr>) \<and> list_all alloc_live vas"
proof -
  let ?m = "p_module p"
  from assms have live: "list_all alloc_live (VoiceAllocators p)" and pos: "0 \<le> currentPos p"
    and row: "0 \<le> currentRow p" and seq: "list_all (\<lambda>i. 0 \<le> i) (Sequence ?m)"
    by (simp_all add: player_safe_def)
  have same: "p\<lparr>VoiceAllocators := VoiceAllocators p\<rparr> = p" by simp
  show ?thesis
  proof (cases "currentPos p \<ge> int (length (Sequence ?m))")
    case True
    with live same show ?thesis
      by (intro exI [of _ "VoiceAllocators p"]) (simp add: Player_processRow_def)
  next
    case False
    let ?pi = "Sequence ?m ! nat (currentPos p)"
    from False pos have gi: "go_index (Sequence ?m) (currentPos p) = Some ?pi"
      by (simp add: go_index_def)
    from False pos seq have pi0: "0 \<le> ?pi" by (simp add: list_all_length)
    show ?thesis
    proof (cases "?pi \<ge> int (length (Patterns ?m))")
      case True
      with False gi live same show ?thesis
        by (intro exI [of _ "VoiceAllocators p"]) (simp add: Player_processRow_def)
    next
      case nb: False
      let ?pat = "Patterns ?m ! nat ?pi"
      from nb pi0 have gp: "go_index (Patterns ?m) ?pi = Some ?pat" by (simp add: go_index_def)
      from process_channels_live [OF live row, of "Channels ?pat"] obtain vas where
        "process_channels (Channels ?pat) (VoiceAllocators p) (currentRow p) = Some vas"
        "list_all alloc_live vas" by blast
      with False nb gi gp show ?thesis
        by (intro exI [of _ vas]) (simp add: Player_processRow_def)
    qed
  qed
qed

lemma mix_voices_ok:
  "mix_voices vs s c = Some (t, c', vs') \<Longrightarrow> list_all voice_ok vs \<Longrightarrow> list_all voice_ok vs'"
proof (induction vs arbitrary: s c t c' vs')
  case Nil
  then show ?case by simp
next
  case (Cons v vs)
  from Cons.prems have v: "voice_ok v" and vs: "list_all voice_ok vs" by simp_all
  from Cons.prems obtain a where a: "Voice_IsActive v = Some a"
    by (cases "Voice_IsActive v") simp_all
  show ?case
  proof (cases a)
    case True
    from voice_ok_Next [OF v] obtain x v' where n: "Voice_Next v = Some (x, v')" "voice_ok v'"
      by blast
    with a True Cons.prems obtain ws where
      r: "mix_voices vs (s + x) (c + 1) = Some (t, c', ws)" and vs': "vs' = v' # ws"
      by (cases "mix_voices vs (s + x) (c + 1)") auto
    from Cons.IH [OF r vs] n vs' show ?thesis by simp
  next
    case False
    with a Cons.prems obtain ws where
      r: "mix_voices vs s c = Some (t, c', ws)" and vs': "vs' = v # ws"
      by (cases "mix_voices vs s c") auto
    from Cons.IH [OF r vs] v vs' show ?thesis by simp
  qed
qed

lemma Next_live:
  assumes "alloc_live va"
  shows "\<exists>x va'. VoiceAllocator_Next va = Some (x, va') \<and> alloc_live va'"
proof -
  from assms have s: "alloc_safe va" and ne: "voices va \<noteq> []" by (simp_all add: alloc_live_def)
  note sd = alloc_safeD [OF s]
  from mix_voices_total [OF sd(1), of 0 0] obtain t c vs where
    m: "mix_voices (voices va) 0 0 = Some (t, c, vs)" by blast
  from mix_voices_sum [OF m] have l: "length vs = length (voices va)" by simp
  from mix_voices_ok [OF m sd(1)] have ok: "list_all voice_ok vs" .
  have "alloc_live (va\<lparr>voices := vs\<rparr>)"
    using sd ok l ne by (auto simp: alloc_live_def alloc_safe_def)
  with m show ?thesis by (simp add: VoiceAllocator_Next_def)
qed

lemma mix_channels_live:
  "list_all alloc_live vas \<Longrightarrow>
   \<exists>t vas'. mix_channels vas s = Some (t, vas') \<and> list_all alloc_live vas'"
proof (induction vas arbitrary: s)
  case Nil
  show ?case by simp
next
  case (Cons va vas)
  then have va: "alloc_live va" and vas: "list_all alloc_live vas" by simp_all
  from Next_live [OF va] obtain x va' where n: "VoiceAllocator_Next va = Some (x, va')"
    "alloc_live va'" by blast
  from Cons.IH [OF vas, of "s + x"] obtain t ws where
    "mix_channels vas (s + x) = Some (t, ws)" "list_all alloc_live ws" by blast
  with n show ?case by simp
qed

section \<open>Player: the cursor\<close>

lemma Suc_within_row:
  assumes "0 < n" "k mod n \<noteq> n - 1"
  shows "Suc k div n = k div n" "Suc k mod n = Suc (k mod n)"
proof -
  from assms have ne: "Suc (k mod n) \<noteq> n" by auto
  then show m: "Suc k mod n = Suc (k mod n)" by (simp add: mod_Suc)
  then show "Suc k div n = k div n" by (simp add: div_Suc)
qed

lemma Suc_next_row:
  assumes "0 < n" "k mod n = n - 1"
  shows "Suc k div n = Suc (k div n)" "Suc k mod n = 0"
proof -
  from assms have "Suc (k mod n) = n" by auto
  then show m: "Suc k mod n = 0" by (simp add: mod_Suc)
  then show "Suc k div n = Suc (k div n)" by (simp add: div_Suc)
qed

lemma before_end: "0 < n \<Longrightarrow> k < R * n \<longleftrightarrow> k div n < R" for n k R :: nat
  using div_less_iff_less_mult [of n k R] by simp

lemma advance_cursor_within_row:
  assumes "sampleCounter p + 1 < samplesPerRow p"
  shows "advance_cursor p = Some (p\<lparr>sampleCounter := sampleCounter p + 1\<rparr>)"
  using assms by (simp add: advance_cursor_def Let_def)

lemma advance_cursor_next_row:
  assumes "sampleCounter p + 1 \<ge> samplesPerRow p"
    and "go_index (Sequence (p_module p)) (currentPos p) = Some patternIdx"
    and "go_index (Patterns (p_module p)) patternIdx = Some pattern"
    and "currentRow p + 1 < Rows pattern"
  shows "advance_cursor p = Some (p\<lparr>sampleCounter := 0, currentRow := currentRow p + 1\<rparr>)"
  using assms go_index_Some [OF assms(2)] go_index_Some [OF assms(3)]
  by (simp add: advance_cursor_def Let_def)

lemma advance_cursor_last_row:
  assumes "sampleCounter p + 1 \<ge> samplesPerRow p"
    and "go_index (Sequence (p_module p)) (currentPos p) = Some patternIdx"
    and "go_index (Patterns (p_module p)) patternIdx = Some pattern"
    and "currentRow p + 1 \<ge> Rows pattern"
    and "currentPos p + 1 \<ge> int (length (Sequence (p_module p)))"
  shows "advance_cursor p =
     Some (p\<lparr>sampleCounter := 0, currentRow := 0, currentPos := currentPos p + 1,
              p_done := True\<rparr>)"
  using assms go_index_Some [OF assms(2)] go_index_Some [OF assms(3)]
  by (simp add: advance_cursor_def Let_def)

lemma Player_Next_safe:
  assumes "player_safe p" "\<not> p_done p"
  shows "\<exists>s vas. list_all alloc_live vas \<and>
           Player_Next p = map_option (Pair s) (advance_cursor (p\<lparr>VoiceAllocators := vas\<rparr>))"
proof -
  have "\<exists>vas1. (if sampleCounter p = 0 then Player_processRow p else Some p) =
          Some (p\<lparr>VoiceAllocators := vas1\<rparr>) \<and> list_all alloc_live vas1"
  proof (cases "sampleCounter p = 0")
    case True
    with processRow_safe [OF assms(1)] show ?thesis by simp
  next
    case False
    have "p\<lparr>VoiceAllocators := VoiceAllocators p\<rparr> = p" by simp
    with False assms(1) show ?thesis
      by (intro exI [of _ "VoiceAllocators p"]) (simp add: player_safe_def)
  qed
  then obtain vas1 where
    p1: "(if sampleCounter p = 0 then Player_processRow p else Some p) =
          Some (p\<lparr>VoiceAllocators := vas1\<rparr>)" and l1: "list_all alloc_live vas1" by blast
  from mix_channels_live [OF l1, of 0] obtain t vas where
    m: "mix_channels vas1 0 = Some (t, vas)" and l: "list_all alloc_live vas" by blast
  show ?thesis
    using assms(2) p1 m l
    by (intro exI [of _ "t / of_int (int (length vas1))"] exI [of _ vas])
       (cases "advance_cursor (p\<lparr>VoiceAllocators := vas\<rparr>)"; simp add: Player_Next_def)
qed

lemma at_step_Next:
  assumes m: "Sequence m = [0]" "Patterns m \<noteq> []" "Rows (Patterns m ! 0) = int R"
    and n: "0 < n" and at: "at_step m n R k p"
  shows "\<exists>s p'. Player_Next p = Some (s, p') \<and> at_step m n R (Suc k) p'"
proof (cases "k < R * n")
  case False
  then have "\<not> Suc k < R * n" by simp
  with at False show ?thesis by (simp add: Player_Next_def at_step_def)
next
  case True
  with at have mod: "p_module p = m" and spr: "samplesPerRow p = int n" and safe: "player_safe p"
    and pos: "currentPos p = 0" and row: "currentRow p = int (k div n)"
    and cnt: "sampleCounter p = int (k mod n)" and nd: "\<not> p_done p"
    by (simp_all add: at_step_def)
  from True n have rlt: "k div n < R" by (simp add: before_end)
  from Player_Next_safe [OF safe nd] obtain s vas where live: "list_all alloc_live vas"
    and nx: "Player_Next p = map_option (Pair s) (advance_cursor (p\<lparr>VoiceAllocators := vas\<rparr>))"
    by blast
  let ?q = "p\<lparr>VoiceAllocators := vas\<rparr>"
  have qsafe: "player_safe ?q" using safe live by (simp add: player_safe_def)
  have gi: "go_index (Sequence (p_module ?q)) (currentPos ?q) = Some 0"
    using m(1) mod pos by (simp add: go_index_def)
  have gp: "go_index (Patterns (p_module ?q)) 0 = Some (Patterns m ! 0)"
    using m(2) mod by (simp add: go_index_def)
  have modlt: "k mod n < n" using n by simp
  show ?thesis
  proof (cases "k mod n = n - 1")
    case False
    with modlt have lt: "sampleCounter ?q + 1 < samplesPerRow ?q" using cnt spr by simp
    note k' = Suc_within_row [OF n False]
    from k'(1) rlt n have lt': "Suc k < R * n" by (simp add: before_end)
    from advance_cursor_within_row [OF lt] nx
    have "Player_Next p = Some (s, ?q\<lparr>sampleCounter := sampleCounter ?q + 1\<rparr>)" by simp
    moreover have "at_step m n R (Suc k) (?q\<lparr>sampleCounter := sampleCounter ?q + 1\<rparr>)"
      using mod spr qsafe pos row cnt nd k' lt' by (simp add: at_step_def player_safe_def)
    ultimately show ?thesis by blast
  next
    case last: True
    with n have ge: "sampleCounter ?q + 1 \<ge> samplesPerRow ?q" using cnt spr by simp
    note k' = Suc_next_row [OF n last]
    show ?thesis
    proof (cases "Suc (k div n) < R")
      case True
      then have r: "currentRow ?q + 1 < Rows (Patterns m ! 0)" using row m(3) by simp
      from True k'(1) n have lt': "Suc k < R * n" by (simp add: before_end)
      from advance_cursor_next_row [OF ge gi gp r] nx
      have "Player_Next p = Some (s, ?q\<lparr>sampleCounter := 0, currentRow := currentRow ?q + 1\<rparr>)"
        by simp
      moreover have "at_step m n R (Suc k) (?q\<lparr>sampleCounter := 0, currentRow := currentRow ?q + 1\<rparr>)"
        using mod spr qsafe pos row nd k' lt' by (simp add: at_step_def player_safe_def)
      ultimately show ?thesis by blast
    next
      case False
      then have r: "currentRow ?q + 1 \<ge> Rows (Patterns m ! 0)" using row m(3) by simp
      from False k'(1) n have nlt: "\<not> Suc k < R * n" by (simp add: before_end)
      have e: "currentPos ?q + 1 \<ge> int (length (Sequence (p_module ?q)))"
        using m(1) mod pos by simp
      from advance_cursor_last_row [OF ge gi gp r e] nx
      have "Player_Next p = Some (s, ?q\<lparr>sampleCounter := 0, currentRow := 0,
              currentPos := currentPos ?q + 1, p_done := True\<rparr>)"
        by simp
      moreover have "at_step m n R (Suc k) (?q\<lparr>sampleCounter := 0, currentRow := 0,
              currentPos := currentPos ?q + 1, p_done := True\<rparr>)"
        using mod spr qsafe pos nlt by (simp add: at_step_def player_safe_def)
      ultimately show ?thesis by blast
    qed
  qed
qed

lemma render_Suc:
  "render (Suc k) p =
     do { (ss, pk) \<leftarrow> render k p; (s, p') \<leftarrow> Player_Next pk; Some (ss @ [s], p') }"
proof (induction k arbitrary: p)
  case 0
  show ?case by (cases "Player_Next p") auto
next
  case (Suc k)
  show ?case
  proof (cases "Player_Next p")
    case None
    then show ?thesis by simp
  next
    case (Some a)
    obtain s p1 where a: "a = (s, p1)" by (cases a)
    have "render (Suc (Suc k)) p =
        do { (ss, p2) \<leftarrow> render (Suc k) p1; Some (s # ss, p2) }"
      using Some a by simp
    also have "\<dots> = do { (ss, pk) \<leftarrow> render k p1; (s', p') \<leftarrow> Player_Next pk;
                          Some (s # ss @ [s'], p') }"
      unfolding Suc.IH [of p1]
      by (auto split: Option.bind_split prod.split)
    also have "\<dots> = do { (ss, pk) \<leftarrow> render (Suc k) p; (s', p') \<leftarrow> Player_Next pk;
                          Some (ss @ [s'], p') }"
      using Some a by (auto split: Option.bind_split prod.split)
    finally show ?thesis .
  qed
qed

lemma at_step_render:
  assumes m: "Sequence m = [0]" "Patterns m \<noteq> []" "Rows (Patterns m ! 0) = int R"
    and n: "0 < n" and at: "at_step m n R 0 p"
  shows "\<exists>ss pk. render k p = Some (ss, pk) \<and> length ss = k \<and> at_step m n R k pk"
proof (induction k)
  case 0
  with at show ?case by simp
next
  case (Suc k)
  then obtain ss pk where r: "render k p = Some (ss, pk)" "length ss = k" "at_step m n R k pk"
    by blast
  from at_step_Next [OF m n r(3)] obtain s p' where
    nx: "Player_Next pk = Some (s, p')" "at_step m n R (Suc k) p'" by blast
  from r(1) nx(1) have "render (Suc k) p = Some (ss @ [s], p')"
    by (simp add: render_Suc del: render.simps)
  with r(2) nx(2) show ?case by simp
qed

lemma those_map:
  "(\<And>x. x \<in> set xs \<Longrightarrow> \<exists>y. f x = Some y \<and> P y) \<Longrightarrow>
   \<exists>ys. those (map f xs) = Some ys \<and> list_all P ys \<and> length ys = length xs"
proof (induction xs)
  case Nil
  show ?case by simp
next
  case (Cons x xs)
  from Cons.prems [of x] obtain y where y: "f x = Some y" "P y" by auto
  from Cons.IH Cons.prems obtain ys where "those (map f xs) = Some ys" "list_all P ys"
    "length ys = length xs" by auto
  with y show ?case by simp
qed

lemma NewVoiceAllocator_live:
  "0 < n \<Longrightarrow> \<exists>va. NewVoiceAllocator inst rate n = Some va \<and> alloc_live va"
  using NewVoiceAllocator_inv [of inst rate n] by (auto simp: alloc_live_def alloc_inv_safe)

lemma NewPlayer_start:
  assumes "Tempo m \<noteq> 0" "list_all (\<lambda>i. 0 \<le> i) (Sequence m)"
  shows "\<exists>p. NewPlayer m rate = Some p \<and> player_safe p \<and> p_module p = m \<and>
           samplesPerRow p = go_int (60 / of_int (Tempo m) / 4 * rate) \<and>
           currentPos p = 0 \<and> currentRow p = 0 \<and> sampleCounter p = 0 \<and> \<not> p_done p \<and>
           length (VoiceAllocators p) = 8"
proof -
  have "\<exists>vas. those (map (\<lambda>i. NewVoiceAllocator (channel_instrument m i) rate 4) [0..<8]) = Some vas \<and>
          list_all alloc_live vas \<and> length vas = length [0..<8::nat]"
    by (rule those_map) (simp add: NewVoiceAllocator_live)
  then obtain vas where
    "those (map (\<lambda>i. NewVoiceAllocator (channel_instrument m i) rate 4) [0..<8]) = Some vas"
    "list_all alloc_live vas" "length vas = 8" by auto
  with assms show ?thesis by (simp add: NewPlayer_def Let_def player_safe_def)
qed

text \<open>
  C1. A module with tempo 120 whose sequence is the single pattern 0, a pattern of 4 rows
  (its channels may hold any events), played at 44100 samples per second: \<open>NewPlayer\<close>
  gives 5512 samples per row (\<open>int\<close> truncates 5512.5), every number of \<open>Next\<close> calls
  returns without a panic, and after \<open>k\<close> calls \<open>IsDone\<close> holds exactly when
  \<open>k \<ge> 4 * 5512\<close>: false after fewer than \<open>4 * 5512\<close> calls, true after exactly
  \<open>4 * 5512\<close>.
\<close>

theorem four_rows_at_tempo_120:
  assumes "Tempo m = 120" "Sequence m = [0]" "Patterns m \<noteq> []" "Rows (Patterns m ! 0) = 4"
  shows "\<exists>p. NewPlayer m 44100 = Some p \<and> samplesPerRow p = 5512 \<and>
     (\<forall>k. \<exists>ss pk. render k p = Some (ss, pk) \<and> length ss = k \<and>
            (IsDone pk \<longleftrightarrow> 4 * 5512 \<le> k))"
proof -
  have t: "Tempo m \<noteq> 0" and sq: "list_all (\<lambda>i. 0 \<le> i) (Sequence m)" using assms by simp_all
  from NewPlayer_start [OF t sq, of 44100] obtain p where
    new: "NewPlayer m 44100 = Some p" and safe: "player_safe p" and md: "p_module p = m"
    and spr: "samplesPerRow p = go_int (60 / of_int (Tempo m) / 4 * 44100)"
    and cur: "currentPos p = 0" "currentRow p = 0" "sampleCounter p = 0" "\<not> p_done p"
    by blast
  have spr': "samplesPerRow p = 5512" using spr assms(1) by (simp add: go_int_def)
  have at0: "at_step m 5512 4 0 p"
    using safe md spr' cur by (simp add: at_step_def)
  have rows: "Rows (Patterns m ! 0) = int 4" using assms(4) by simp
  have "\<exists>ss pk. render k p = Some (ss, pk) \<and> length ss = k \<and> (IsDone pk \<longleftrightarrow> 4 * 5512 \<le> k)"
    for k
  proof -
    from at_step_render [OF assms(2,3) rows _ at0, of k] obtain ss pk where
      r: "render k p = Some (ss, pk)" "length ss = k" and at: "at_step m 5512 4 k pk" by auto
    from at have "IsDone pk \<longleftrightarrow> 4 * 5512 \<le> k"
      by (cases "k < 4 * 5512") (simp_all add: at_step_def IsDone_def)
    with r show ?thesis by blast
  qed
  with new spr' show ?thesis by blast
qed

theorem four_rows_at_tempo_120_witness:
  "Tempo module_example = 120 \<and> Sequence module_example = [0] \<and>
   Patterns module_example \<noteq> [] \<and> Rows (Patterns module_example ! 0) = 4 \<and>
   (\<exists>p. NewPlayer module_example 44100 = Some p \<and> samplesPerRow p = 5512 \<and>
     (\<forall>k. \<exists>ss pk. render k p = Some (ss, pk) \<and> length ss = k \<and>
            (IsDone pk \<longleftrightarrow> 4 * 5512 \<le> k)))"
proof -
  have h: "Tempo module_example = 120" "Sequence module_example = [0]"
    "Patterns module_example \<noteq> []" "Rows (Patterns module_example ! 0) = 4"
    by (simp_all add: module_example_def)
  from four_rows_at_tempo_120 [OF h] h show ?thesis by blast
qed

section \<open>Player: rests\<close>

lemma Envelope_Next_sustain: "stage e = Sustain \<Longrightarrow> stage (snd (Envelope_Next e)) = Sustain"
  by (simp add: Envelope_Next_def)

lemma FMOperator_Next_sustain: "op_sustain op \<Longrightarrow> op_sustain (snd (FMOperator_Next op m))"
  by (simp add: op_sustain_def FMOperator_Next_envelope Envelope_Next_sustain)

lemma FMInstrument_Next_sustain:
  assumes "list_all op_sustain (operators fm)"
  shows "list_all op_sustain (operators (snd (FMInstrument_Next fm)))"
proof -
  have step: "\<And>i m. i < length (operators fm) \<Longrightarrow>
      op_sustain (snd (FMOperator_Next (operators fm ! i) m))"
    using assms FMOperator_Next_sustain by (simp add: list_all_length)
  show ?thesis
    using assms
    by (cases "algorithm fm")
       (simp_all add: FMInstrument_Next_def Let_def case_prod_beta list_all_update step)
qed

lemma Voice_Next_sustained:
  assumes "sustained v" "Voice_Next v = Some (s, v')"
  shows "sustained v'"
proof (cases "fm_path v")
  case True
  with assms(1) obtain fm where fm: "fmInstrument v = Some fm" "useFM v"
    "list_all op_sustain (operators fm)"
    by (auto simp: sustained_def fm_path_def split: option.splits)
  from FMInstrument_Next_sustain [OF fm(3)] assms fm True show ?thesis
    by (auto simp: Voice_Next_def sustained_def fm_path_def case_prod_beta Let_def
        split: if_splits)
next
  case False
  with assms(1) obtain e where e: "envelope v = Some e" "stage e = Sustain"
    by (auto simp: sustained_def split: option.splits)
  from Envelope_Next_sustain [OF e(2)] assms False e show ?thesis
    by (auto simp: Voice_Next_def sustained_def fm_path_def case_prod_beta Let_def
        split: if_splits Option.bind_splits)
qed

lemma mix_voices_sustained:
  "mix_voices vs s c = Some (t, c', vs') \<Longrightarrow>
   \<forall>i<length vs. sustained (vs ! i) \<longrightarrow> sustained (vs' ! i)"
proof (induction vs arbitrary: s c t c' vs')
  case Nil
  then show ?case by simp
next
  case (Cons v vs)
  from Cons.prems obtain a where a: "Voice_IsActive v = Some a"
    by (cases "Voice_IsActive v") simp_all
  show ?case
  proof (cases a)
    case True
    with a Cons.prems obtain x v' where n: "Voice_Next v = Some (x, v')"
      by (cases "Voice_Next v") auto
    with a True Cons.prems obtain ws where
      r: "mix_voices vs (s + x) (c + 1) = Some (t, c', ws)" and vs': "vs' = v' # ws"
      by (cases "mix_voices vs (s + x) (c + 1)") auto
    from Cons.IH [OF r] Voice_Next_sustained [OF _ n] vs' show ?thesis
      by (auto simp: nth_Cons')
  next
    case False
    with a Cons.prems obtain ws where
      r: "mix_voices vs s c = Some (t, c', ws)" and vs': "vs' = v # ws"
      by (cases "mix_voices vs s c") auto
    from Cons.IH [OF r] vs' show ?thesis by (auto simp: nth_Cons')
  qed
qed

lemma Next_keeps_ringing:
  assumes "VoiceAllocator_Next va = Some (x, va')"
  shows "keeps_ringing va va'"
proof -
  from assms obtain t c vs where m: "mix_voices (voices va) 0 0 = Some (t, c, vs)"
    and va': "va' = va\<lparr>voices := vs\<rparr>"
    by (auto simp: VoiceAllocator_Next_def split: Option.bind_splits)
  from mix_voices_sum [OF m] mix_voices_sustained [OF m] va' show ?thesis
    by (simp add: keeps_ringing_def)
qed

lemma mix_channels_nth:
  "mix_channels vas s = Some (t, vas') \<Longrightarrow>
   length vas' = length vas \<and>
   (\<forall>ch<length vas. \<exists>x. VoiceAllocator_Next (vas ! ch) = Some (x, vas' ! ch))"
proof (induction vas arbitrary: s t vas')
  case Nil
  then show ?case by simp
next
  case (Cons va vas)
  from Cons.prems obtain x va' where n: "VoiceAllocator_Next va = Some (x, va')"
    by (cases "VoiceAllocator_Next va") auto
  with Cons.prems obtain ws where r: "mix_channels vas (s + x) = Some (t, ws)"
    and vas': "vas' = va' # ws"
    by (cases "mix_channels vas (s + x)") auto
  from Cons.IH [OF r] n vas' show ?case by (auto simp: nth_Cons')
qed

lemma advance_cursor_allocators:
  "advance_cursor p = Some p' \<Longrightarrow> VoiceAllocators p' = VoiceAllocators p"
  by (auto simp: advance_cursor_def Let_def split: if_splits Option.bind_splits)

lemma keeps_ringing_refl: "keeps_ringing va va"
  by (simp add: keeps_ringing_def)

lemma keeps_ringing_trans:
  "keeps_ringing a b \<Longrightarrow> keeps_ringing b c \<Longrightarrow> keeps_ringing a c"
  by (simp add: keeps_ringing_def)

lemma Player_Next_rest:
  assumes nx: "Player_Next p = Some (s, p')" and ch: "ch < length (VoiceAllocators p)"
    and ev: "row_event p ch = Some ev" and rest: "Note ev < 0" "Note ev \<noteq> - 2"
  shows "keeps_ringing (VoiceAllocators p ! ch) (VoiceAllocators p' ! ch)"
proof (cases "p_done p")
  case True
  with nx show ?thesis by (simp add: Player_Next_def keeps_ringing_refl)
next
  case False
  with nx obtain p1 t vas p2 where
    p1: "(if sampleCounter p = 0 then Player_processRow p else Some p) = Some p1"
    and m: "mix_channels (VoiceAllocators p1) 0 = Some (t, vas)"
    and ac: "advance_cursor (p1\<lparr>VoiceAllocators := vas\<rparr>) = Some p2" and p': "p' = p2"
    by (auto simp: Player_Next_def split: Option.bind_splits)
  have same: "VoiceAllocators p1 ! ch = VoiceAllocators p ! ch"
    "length (VoiceAllocators p1) = length (VoiceAllocators p)"
  proof -
    show "VoiceAllocators p1 ! ch = VoiceAllocators p ! ch"
    proof (cases "sampleCounter p = 0")
      case True
      with p1 processRow_rest(1) [OF _ ch ev rest] show ?thesis by simp
    next
      case False
      with p1 show ?thesis by simp
    qed
    show "length (VoiceAllocators p1) = length (VoiceAllocators p)"
    proof (cases "sampleCounter p = 0")
      case True
      with p1 processRow_rest(2) [OF _ ch ev rest] show ?thesis by simp
    next
      case False
      with p1 show ?thesis by simp
    qed
  qed
  from mix_channels_nth [OF m] ch same(2) obtain x where
    "VoiceAllocator_Next (VoiceAllocators p1 ! ch) = Some (x, vas ! ch)" by auto
  from Next_keeps_ringing [OF this] same(1)
  have "keeps_ringing (VoiceAllocators p ! ch) (vas ! ch)" by simp
  with advance_cursor_allocators [OF ac] p' show ?thesis by simp
qed

text \<open>
  C6. Let the event that \<open>processRow\<close> reads for a channel at the cursor be a rest (note
  value -1). Then \<open>processRow\<close> returns the allocator of that channel as it was: it calls
  neither \<open>NoteOn\<close>, \<open>NoteOff\<close> nor \<open>AllNotesOff\<close> on it, so the note map, the list of
  active notes and every voice are unchanged. Over a whole call of \<open>Next\<close> on such a row
  the note map and the list are still unchanged and every voice in Sustain stays in
  Sustain: a held note rings on through rest after rest.
\<close>

theorem rest_row_leaves_channel:
  assumes ch: "ch < length (VoiceAllocators p)"
    and ev: "row_event p ch = Some ev" and rest: "Note ev = - 1"
  shows "(\<forall>p'. Player_processRow p = Some p' \<longrightarrow>
            VoiceAllocators p' ! ch = VoiceAllocators p ! ch) \<and>
         (\<forall>s p'. Player_Next p = Some (s, p') \<longrightarrow>
            keeps_ringing (VoiceAllocators p ! ch) (VoiceAllocators p' ! ch))"
proof -
  from rest have r: "Note ev < 0" "Note ev \<noteq> - 2" by simp_all
  show ?thesis
    using processRow_rest(1) [OF _ ch ev r] Player_Next_rest [OF _ ch ev r] by blast
qed

lemma advance_cursor_total:
  assumes "0 \<le> currentPos p" "list_all (\<lambda>i. 0 \<le> i) (Sequence (p_module p))"
  shows "\<exists>p'. advance_cursor p = Some p'"
proof -
  let ?m = "p_module p"
  have gi: "currentPos p < int (length (Sequence ?m)) \<Longrightarrow>
      go_index (Sequence ?m) (currentPos p) = Some (Sequence ?m ! nat (currentPos p)) \<and>
      0 \<le> Sequence ?m ! nat (currentPos p)"
    using assms by (simp add: go_index_def list_all_length)
  have gp: "\<And>i. 0 \<le> i \<Longrightarrow> i < int (length (Patterns ?m)) \<Longrightarrow>
      go_index (Patterns ?m) i = Some (Patterns ?m ! nat i)"
    by (simp add: go_index_def)
  show ?thesis
    using gi gp by (auto simp: advance_cursor_def Let_def)
qed

lemma Player_Next_total:
  assumes "player_safe p"
  shows "\<exists>s p'. Player_Next p = Some (s, p')"
proof (cases "p_done p")
  case True
  then show ?thesis by (simp add: Player_Next_def)
next
  case False
  from Player_Next_safe [OF assms False] obtain s vas where
    nx: "Player_Next p = map_option (Pair s) (advance_cursor (p\<lparr>VoiceAllocators := vas\<rparr>))"
    by blast
  from assms have "0 \<le> currentPos (p\<lparr>VoiceAllocators := vas\<rparr>)"
    "list_all (\<lambda>i. 0 \<le> i) (Sequence (p_module (p\<lparr>VoiceAllocators := vas\<rparr>)))"
    by (simp_all add: player_safe_def)
  from advance_cursor_total [OF this] nx show ?thesis by auto
qed

lemma square_voice_sustain_eq:
  "square_voice_sustain =
     \<lparr>oscillator = Some \<lparr>waveType = Square, osc_frequency = NoteToFrequency 57, osc_phase = 0,
                          osc_sampleRate = 4\<rparr>,
      envelope = Some \<lparr>attackTime = 1/100, decayTime = 1/10, sustainLevel = 6/10,
                        releaseTime = 2/10, stage = Sustain, level = 6/10, env_sampleRate = 4,
                        sampleCount = 0\<rparr>,
      fmInstrument = None, useFM = False, v_volume = 1/2, active = True, v_sampleRate = 4\<rparr>"
  by (simp add: square_voice_sustain_def square_voice_on_eq)

lemma rest_player_example_safe: "player_safe rest_player_example"
  by (auto simp: player_safe_def rest_player_example_def alloc_live_def alloc_safe_def
      mix_example_def module_example_def square_voice_sustain_eq square_voice_def NewVoice_def
      voice_ok_def split: if_splits)

theorem rest_row_leaves_channel_witness:
  "0 < length (VoiceAllocators rest_player_example) \<and>
   map_option Note (row_event rest_player_example 0) = Some (- 1) \<and>
   sustained (voices (VoiceAllocators rest_player_example ! 0) ! 0) \<and>
   (\<exists>p'. Player_processRow rest_player_example = Some p' \<and>
      VoiceAllocators p' ! 0 = VoiceAllocators rest_player_example ! 0) \<and>
   (\<exists>s p'. Player_Next rest_player_example = Some (s, p') \<and>
      keeps_ringing (VoiceAllocators rest_player_example ! 0) (VoiceAllocators p' ! 0) \<and>
      sustained (voices (VoiceAllocators p' ! 0) ! 0))"
proof -
  let ?P = rest_player_example
  let ?ev = "\<lparr>Note = - 1, tn_Instrument = 0, Volume = 1, Effect = [], Chord = []\<rparr>"
  have ch: "0 < length (VoiceAllocators ?P)" by (simp add: rest_player_example_def)
  have ev: "row_event ?P 0 = Some ?ev"
    by (simp add: row_event_def rest_player_example_def module_example_def go_index_def)
  have rest: "Note ?ev = - 1" by simp
  have sus: "sustained (voices (VoiceAllocators ?P ! 0) ! 0)"
    by (simp add: rest_player_example_def sustained_def square_voice_sustain_eq fm_path_def)
  have l: "0 < length (voices (VoiceAllocators ?P ! 0))" by (simp add: rest_player_example_def)
  note frame = rest_row_leaves_channel [OF ch ev rest]
  from processRow_safe [OF rest_player_example_safe] obtain p1 where
    pr: "Player_processRow ?P = Some p1" by blast
  from Player_Next_total [OF rest_player_example_safe] obtain s p2 where
    nx: "Player_Next ?P = Some (s, p2)" by blast
  from frame [THEN conjunct1, rule_format, OF pr]
  have a: "VoiceAllocators p1 ! 0 = VoiceAllocators ?P ! 0" .
  from frame [THEN conjunct2, rule_format, OF nx]
  have b: "keeps_ringing (VoiceAllocators ?P ! 0) (VoiceAllocators p2 ! 0)" .
  from b sus l have c: "sustained (voices (VoiceAllocators p2 ! 0) ! 0)"
    by (simp add: keeps_ringing_def)
  from ch ev sus pr a nx b c show ?thesis by auto
qed

section \<open>Player: rendering\<close>

text \<open>
  A player that cannot panic stays so under \<open>Next\<close>, so every number of calls returns
  its samples, and the samples are the same whether they are pulled one by one or in
  blocks. That two runs of the program from the same module and rate agree is a property
  of the Go program and its runtime (no clock, no random source, no iteration over the
  note map); here \<open>Next\<close> is a function of the player, so it is not a statement that this
  development can prove or refute.
\<close>

lemma advance_cursor_safe:
  assumes "player_safe p" "advance_cursor p = Some p'"
  shows "player_safe p'"
  using assms
  by (auto simp: advance_cursor_def Let_def player_safe_def split: if_splits Option.bind_splits)

lemma Player_Next_keeps_safe:
  assumes "player_safe p" "Player_Next p = Some (s, p')"
  shows "player_safe p'"
proof (cases "p_done p")
  case True
  with assms show ?thesis by (simp add: Player_Next_def)
next
  case False
  from Player_Next_safe [OF assms(1) False] obtain t vas where live: "list_all alloc_live vas"
    and nx: "Player_Next p = map_option (Pair t) (advance_cursor (p\<lparr>VoiceAllocators := vas\<rparr>))"
    by blast
  from nx assms(2) have ac: "advance_cursor (p\<lparr>VoiceAllocators := vas\<rparr>) = Some p'"
    by (cases "advance_cursor (p\<lparr>VoiceAllocators := vas\<rparr>)") simp_all
  have "player_safe (p\<lparr>VoiceAllocators := vas\<rparr>)"
    using assms(1) live by (simp add: player_safe_def)
  from advance_cursor_safe [OF this ac] show ?thesis .
qed

lemma render_total:
  "player_safe p \<Longrightarrow> \<exists>ss pk. render k p = Some (ss, pk) \<and> length ss = k \<and> player_safe pk"
proof (induction k arbitrary: p)
  case 0
  then show ?case by simp
next
  case (Suc k)
  from Player_Next_total [OF Suc.prems] obtain s p' where n: "Player_Next p = Some (s, p')"
    by blast
  from Player_Next_keeps_safe [OF Suc.prems n] have "player_safe p'" .
  from Suc.IH [OF this] obtain ss pk where "render k p' = Some (ss, pk)" "length ss = k"
    "player_safe pk" by blast
  with n show ?case by simp
qed

lemma render_add:
  "render (j + k) p =
     do { (ss, p') \<leftarrow> render j p; (ts, p'') \<leftarrow> render k p'; Some (ss @ ts, p'') }"
proof (induction j arbitrary: p)
  case 0
  show ?case by (cases "render k p") auto
next
  case (Suc j)
  show ?case
  proof (cases "Player_Next p")
    case None
    then show ?thesis by simp
  next
    case (Some a)
    obtain s p1 where a: "a = (s, p1)" by (cases a)
    show ?thesis
      using Some a Suc.IH [of p1]
      by (auto split: Option.bind_split prod.split)
  qed
qed

section \<open>Notes\<close>

text \<open>
  The formula of \<open>NoteToFrequency\<close>, read over the real numbers, doubles with every
  octave and gives 440 at note 57. The program evaluates it in \<open>float64\<close> through
  \<open>math.Pow\<close>, whose results are rounded; what those rounded results are is outside this
  development.
\<close>

lemma NoteToFrequency_real_octave:
  "NoteToFrequency (n + 12) = 2 * NoteToFrequency n" "NoteToFrequency 57 = 440"
proof -
  have "real_of_int (n + 12 - 57) / 12 = real_of_int (n - 57) / 12 + 1"
    by (simp add: field_simps)
  then have "2 powr (real_of_int (n + 12 - 57) / 12) = 2 powr (real_of_int (n - 57) / 12) * 2"
    by (simp only: powr_add) simp
  then show "NoteToFrequency (n + 12) = 2 * NoteToFrequency n"
    by (simp add: NoteToFrequency_def)
  show "NoteToFrequency 57 = 440" by (simp add: NoteToFrequency_def)
qed

end
